theory Spec2Isabelle
  imports Main "HOL-Library.AList" "HOL-Library.Multiset"
begin

section \<open>Strings\<close>

text \<open>
  JavaScript strings are modelled as \<^typ>\<open>string\<close>: lists of code units below 256.
  \<open>is_space\<close> is the class \<^verbatim>\<open>\s\<close> (also what \<^verbatim>\<open>trim()\<close> removes) on such
  code units: TAB, LF, VT, FF, CR, SPACE and NBSP. \<open>is_word\<close> is \<^verbatim>\<open>\w\<close>.
\<close>

definition is_space :: "char \<Rightarrow> bool" where
  "is_space c = (c = CHR 0x20 \<or> c = CHR 0x09 \<or> c = CHR 0x0A \<or> c = CHR 0x0B \<or> c = CHR 0x0C
     \<or> c = CHR 0x0D \<or> c = CHR 0xA0)"

definition is_word :: "char \<Rightarrow> bool" where
  "is_word c =
     (c \<in> set ''abcdefghijklmnopqrstuvwxyzABCDEFGHIJKLMNOPQRSTUVWXYZ0123456789_'')"

definition trim :: "string \<Rightarrow> string" where
  "trim s = rev (dropWhile is_space (rev (dropWhile is_space s)))"

abbreviation bslash :: char where
  "bslash \<equiv> CHR 0x5C"

abbreviation dquote :: char where
  "dquote \<equiv> CHR 0x22"

abbreviation squote :: char where
  "squote \<equiv> CHR 0x27"

fun show_nat :: "nat \<Rightarrow> string" where
  "show_nat n = (if n < 10 then [char_of (48 + n)]
     else show_nat (n div 10) @ [char_of (48 + n mod 10)])"

declare show_nat.simps [simp del]

section \<open>Data model\<close>

datatype Operator = AND | OR

record Block =
  bid :: string
  name :: string
  terms :: "string list"
  isRegex :: bool
  exclude :: bool

datatype FieldName = Title | Abstract | Keywords

record 'a per_field =
  f_title :: 'a
  f_abstract :: 'a
  f_keywords :: 'a

fun field_of :: "FieldName \<Rightarrow> 'a per_field \<Rightarrow> 'a" where
  "field_of Title r = f_title r"
| "field_of Abstract r = f_abstract r"
| "field_of Keywords r = f_keywords r"

record QueryConfig =
  blocks :: "Block list"
  operators :: "Operator list"
  caseInsensitive :: bool
  searchFields :: "bool per_field"

text \<open>
  A \<^verbatim>\<open>RegExp\<close> object is its source and its flags. The regular-expression engine is
  the JavaScript runtime's, not this program's: the evaluator takes it as a parameter,
  \<open>rx_valid\<close> saying whether \<^verbatim>\<open>new RegExp(pattern)\<close> accepts the pattern and
  \<open>rx_test\<close> being \<^verbatim>\<open>re.test(text)\<close> of a regular expression without the global flag.
\<close>

record RegExp =
  source :: string
  flags :: string

record engine =
  rx_valid :: "string \<Rightarrow> bool"
  rx_test :: "string \<Rightarrow> string \<Rightarrow> string \<Rightarrow> bool"

section \<open>Outcomes of a call\<close>

text \<open>
  A call of the program returns a value or throws. The two errors that the modelled code
  can throw are the parser's own \<^verbatim>\<open>Error("No BibTeX entries found...")\<close>, here
  \<open>ParseFailure\<close>, and the \<^verbatim>\<open>TypeError\<close> that the host raises when a property is read
  from \<^verbatim>\<open>undefined\<close>.

  The third outcome marks the border of the model. Where the code indexes a built-in
  object of the host (a method of \<^verbatim>\<open>Object.prototype\<close>, or \<^verbatim>\<open>Object.prototype\<close> itself)
  with a configured string, what it finds there, and whether its write is accepted,
  depends on the host and on what earlier runs in the same page have written: the model
  stops with \<open>HostDependent\<close> and says nothing about the result.
\<close>

datatype error = ParseFailure | TypeError

datatype 'a outcome = Returns 'a | Throws error | HostDependent

text \<open>A loop whose body may throw: the first outcome that is not a return ends the loop.\<close>

fun for_each :: "('s \<Rightarrow> 'a \<Rightarrow> 's outcome) \<Rightarrow> 's \<Rightarrow> 'a list \<Rightarrow> 's outcome" where
  "for_each f s [] = Returns s"
| "for_each f s (x # xs) =
     (case f s x of
        Returns s' \<Rightarrow> for_each f s' xs
      | Throws e \<Rightarrow> Throws e
      | HostDependent \<Rightarrow> HostDependent)"

section \<open>Plain objects used as dictionaries\<close>

text \<open>
  The evaluator and the aggregator keep their tables in object literals (\<^verbatim>\<open>{}\<close>) indexed
  by configured strings (block names, terms). Such an object is modelled by its own
  properties: an association list in the order in which the properties were created.
  Three rules of the host language show through these tables.

  \<^item> A plain object inherits the members of \<^verbatim>\<open>Object.prototype\<close>. Reading \<^verbatim>\<open>obj[k]\<close> for
    one of their names gives that member (a function, or for \<^verbatim>\<open>__proto__\<close> the prototype
    itself), which is truthy, and not \<^verbatim>\<open>undefined\<close>. \<open>proto_names\<close> lists the names that
    every browser and Node provide; the built-in objects are taken as the host delivers
    them, with nothing added by other code.
  \<^item> \<^verbatim>\<open>obj["__proto__"] = v\<close> calls the inherited setter: it replaces the prototype of
    \<^verbatim>\<open>obj\<close> when \<^verbatim>\<open>v\<close> is an object and does nothing otherwise; in neither case does
    \<^verbatim>\<open>obj\<close> get an own property. Every other name, inherited or not, becomes an own
    property on assignment.
  \<^item> \<^verbatim>\<open>Object.keys\<close> and \<^verbatim>\<open>Object.entries\<close> list the own properties whose names are array
    indices (canonical decimal numerals below \<^verbatim>\<open>2^32 - 1\<close>) first, in ascending numeric
    order, and then the other names in the order of their creation.
\<close>

definition proto_names :: "string list" where
  "proto_names =
     [''constructor'', ''__defineGetter__'', ''__defineSetter__'', ''hasOwnProperty'',
      ''__lookupGetter__'', ''__lookupSetter__'', ''isPrototypeOf'', ''propertyIsEnumerable'',
      ''toString'', ''valueOf'', ''__proto__'', ''toLocaleString'']"

datatype 'v lookup = Own 'v | Inherited | Undefined

text \<open>\<^verbatim>\<open>obj[k]\<close>, read.\<close>

definition obj_get :: "(string \<times> 'v) list \<Rightarrow> string \<Rightarrow> 'v lookup" where
  "obj_get m k =
     (case map_of m k of
        Some v \<Rightarrow> Own v
      | None \<Rightarrow> if k \<in> set proto_names then Inherited else Undefined)"

text \<open>\<^verbatim>\<open>obj[k] = v\<close> where \<^verbatim>\<open>v\<close> is an object.\<close>

definition obj_set :: "string \<Rightarrow> 'v \<Rightarrow> (string \<times> 'v) list \<Rightarrow> (string \<times> 'v) list" where
  "obj_set k v m = (if k = ''__proto__'' then m else AList.update k v m)"

text \<open>
  \<^verbatim>\<open>obj[k] ||= d\<close> where the own values and \<^verbatim>\<open>d\<close> are objects: the assignment happens
  only when the value read is \<^verbatim>\<open>undefined\<close>.
\<close>

definition or_assign :: "string \<Rightarrow> 'v \<Rightarrow> (string \<times> 'v) list \<Rightarrow> (string \<times> 'v) list" where
  "or_assign k d m =
     (case obj_get m k of
        Own v \<Rightarrow> m
      | Inherited \<Rightarrow> m
      | Undefined \<Rightarrow> AList.update k d m)"

definition is_digit :: "char \<Rightarrow> bool" where
  "is_digit c = (c \<in> set ''0123456789'')"

definition index_val :: "string \<Rightarrow> nat" where
  "index_val s = foldl (\<lambda>n c. 10 * n + (of_char c - 48)) 0 s"

definition is_index :: "string \<Rightarrow> bool" where
  "is_index s =
     (s \<noteq> [] \<and> list_all is_digit s \<and> (s = ''0'' \<or> hd s \<noteq> CHR ''0'')
      \<and> index_val s < 4294967295)"

text \<open>\<^verbatim>\<open>Object.entries(obj)\<close> and \<^verbatim>\<open>Object.keys(obj)\<close>.\<close>

definition obj_entries :: "(string \<times> 'v) list \<Rightarrow> (string \<times> 'v) list" where
  "obj_entries m =
     sort_key (\<lambda>p. index_val (fst p)) (filter (\<lambda>p. is_index (fst p)) m)
     @ filter (\<lambda>p. \<not> is_index (fst p)) m"

definition obj_keys :: "(string \<times> 'v) list \<Rightarrow> string list" where
  "obj_keys m = map fst (obj_entries m)"

section \<open>PatternCompiler\<close>

text \<open>The character class of \<^verbatim>\<open>safeRegExp\<close>'s fallback: \<^verbatim>\<open>[.*+?^${}()|[\]\\]\<close>.\<close>

definition syntax_chars :: string where
  "syntax_chars = ''.*+?^${}()|[]'' @ [bslash]"

text \<open>The class of \<^verbatim>\<open>hasRegexMeta\<close>: \<^verbatim>\<open>[\\.^$|()[\]?+{}]\<close>.\<close>

definition meta_chars :: string where
  "meta_chars = [bslash] @ ''.^$|()[]?+{}''"

text \<open>The class of \<^verbatim>\<open>escExceptStar\<close>: \<^verbatim>\<open>[.+?^${}()|[\]\\]\<close>.\<close>

definition esc_chars :: string where
  "esc_chars = ''.+?^${}()|[]'' @ [bslash]"

definition escape_with :: "string \<Rightarrow> string \<Rightarrow> string" where
  "escape_with cls s = concat (map (\<lambda>c. if c \<in> set cls then [bslash, c] else [c]) s)"

definition safeRegExp :: "engine \<Rightarrow> string \<Rightarrow> string \<Rightarrow> RegExp" where
  "safeRegExp eng pattern fl =
     (if rx_valid eng pattern then \<lparr>source = pattern, flags = fl\<rparr>
      else \<lparr>source = escape_with syntax_chars pattern, flags = fl\<rparr>)"

definition hasRegexMeta :: "string \<Rightarrow> bool" where
  "hasRegexMeta s = list_ex (\<lambda>c. c \<in> set meta_chars) s"

definition escExceptStar :: "string \<Rightarrow> string" where
  "escExceptStar s = escape_with esc_chars s"

definition toSmartWordPattern :: "string \<Rightarrow> bool \<Rightarrow> string" where
  "toSmartWordPattern term isRx =
     (let t = trim term in
      if isRx \<and> hasRegexMeta t then t
      else if t \<noteq> [] \<and> last t = CHR ''*''
        then [bslash, CHR ''b''] @ escExceptStar (butlast t) @ ''['' @ [bslash] @ ''w-]*''
      else [bslash, CHR ''b''] @ escExceptStar t @ [bslash, CHR ''b''])"

subsection \<open>Escaping in the words of the specification\<close>

text \<open>
  \<open>no_unescaped cls s\<close>: read from the left, where a backslash takes the next character
  with it, no character of the class \<open>cls\<close> stands in \<open>s\<close> outside such a pair.
\<close>

fun no_unescaped :: "string \<Rightarrow> string \<Rightarrow> bool" where
  "no_unescaped cls [] = True"
| "no_unescaped cls [c] = (c \<notin> set cls)"
| "no_unescaped cls (c # d # r) =
     (if c = bslash then no_unescaped cls r else c \<notin> set cls \<and> no_unescaped cls (d # r))"



section \<open>Evaluator\<close>

record Compiled =
  index :: nat
  cname :: string
  block :: Block
  cterms :: "string list"
  regexes :: "RegExp list"

type_synonym perFieldHits = "(FieldName \<times> string list) list"

type_synonym hitMap = "(string \<times> perFieldHits) list"

record MatchOut =
  ok :: bool
  matchedBlocks :: "string list"
  detailed :: hitMap

definition compile_block :: "engine \<Rightarrow> string \<Rightarrow> nat \<times> Block \<Rightarrow> Compiled option" where
  "compile_block eng fl p =
     (let idx = fst p; b = snd p; ts = filter (\<lambda>t. trim t \<noteq> []) (terms b) in
      if ts = [] then None
      else Some \<lparr>index = idx,
                 cname = (if name b = [] then ''Block '' @ show_nat (idx + 1) else name b),
                 block = b,
                 cterms = ts,
                 regexes = map (\<lambda>t. safeRegExp eng (toSmartWordPattern t (isRegex b)) fl) ts\<rparr>)"

definition compile :: "engine \<Rightarrow> QueryConfig \<Rightarrow> Compiled list" where
  "compile eng cfg =
     List.map_filter (compile_block eng (if caseInsensitive cfg then ''i'' else ''''))
       (enumerate 0 (blocks cfg))"

definition texts_of :: "string per_field \<Rightarrow> bool per_field \<Rightarrow> string per_field" where
  "texts_of flds selected =
     \<lparr>f_title = (if f_title selected then f_title flds else ''''),
      f_abstract = (if f_abstract selected then f_abstract flds else ''''),
      f_keywords = (if f_keywords selected then f_keywords flds else '''')\<rparr>"

definition field_hits :: "engine \<Rightarrow> Compiled \<Rightarrow> string \<Rightarrow> string list" where
  "field_hits eng c t =
     map snd (filter (\<lambda>p. rx_test eng (source (fst p)) (flags (fst p)) t)
       (zip (regexes c) (cterms c)))"

definition perFieldHits_of :: "engine \<Rightarrow> Compiled \<Rightarrow> string per_field \<Rightarrow> perFieldHits" where
  "perFieldHits_of eng c texts =
     concat (map (\<lambda>f. let t = field_of f texts in
                       if t = [] then []
                       else (let hits = field_hits eng c t in
                             if hits \<noteq> [] then [(f, hits)] else []))
       [Title, Abstract, Keywords])"

text \<open>
  \<open>blockHitAtLeastOne\<close> returns \<^verbatim>\<open>any\<close> together with the updated \<^verbatim>\<open>detailed\<close>
  object, which the source mutates in place. \<^verbatim>\<open>detailed\<close> is a plain object: the
  assignment \<^verbatim>\<open>detailed[name] = perFieldHits\<close> is \<open>obj_set\<close>, which stores nothing under
  the name \<^verbatim>\<open>__proto__\<close>; the hit map holds the own properties in the order of their
  creation, and its readers enumerate them with \<open>obj_entries\<close> and \<open>obj_keys\<close>.
\<close>

definition blockHitAtLeastOne ::
  "engine \<Rightarrow> Compiled list \<Rightarrow> string per_field \<Rightarrow> nat \<Rightarrow> hitMap \<Rightarrow> bool \<times> hitMap" where
  "blockHitAtLeastOne eng compiled texts cidx det =
     (let c = compiled ! cidx;
          pfh = perFieldHits_of eng c texts;
          any = (pfh \<noteq> [])
      in (any, if any \<and> \<not> exclude (block (compiled ! cidx))
               then obj_set (cname (compiled ! cidx)) pfh det else det))"

function eval_loop ::
  "engine \<Rightarrow> Operator list \<Rightarrow> Compiled list \<Rightarrow> string per_field \<Rightarrow> nat \<Rightarrow> MatchOut \<Rightarrow> MatchOut"
where
  "eval_loop eng ops compiled texts i st =
     (if i < length ops \<and> i + 1 < length compiled then
        (let cidx = i + 1;
             r = blockHitAtLeastOne eng compiled texts cidx (detailed st);
             hit = fst r;
             rhs = (if exclude (block (compiled ! cidx)) then \<not> hit else hit);
             op = ops ! i;
             val = (if op = AND then ok st \<and> rhs else ok st \<or> rhs);
             mb = (if \<not> exclude (block (compiled ! cidx)) \<and> hit
                   then matchedBlocks st @ [cname (compiled ! cidx)] else matchedBlocks st)
         in eval_loop eng ops compiled texts (i + 1)
              \<lparr>ok = val, matchedBlocks = mb, detailed = snd r\<rparr>)
      else st)"
  by pat_completeness auto
termination
  by (relation "measure (\<lambda>(eng, ops, compiled, texts, i, st). length ops - i)") auto

declare eval_loop.simps [simp del]

definition matchesByFields ::
  "engine \<Rightarrow> QueryConfig \<Rightarrow> string per_field \<Rightarrow> bool per_field \<Rightarrow> MatchOut" where
  "matchesByFields eng cfg flds selected =
     (let compiled = compile eng cfg;
          texts = texts_of flds selected
      in if compiled = [] then \<lparr>ok = True, matchedBlocks = [], detailed = []\<rparr>
         else (let r = blockHitAtLeastOne eng compiled texts 0 [];
                   firstHit = fst r;
                   val = (if exclude (block (compiled ! 0)) then \<not> firstHit else firstHit);
                   mb = (if \<not> exclude (block (compiled ! 0)) \<and> firstHit
                         then [cname (compiled ! 0)] else [])
               in eval_loop eng (operators cfg) compiled texts 0
                    \<lparr>ok = val, matchedBlocks = mb, detailed = snd r\<rparr>))"

subsection \<open>The fold in the words of the specification\<close>

text \<open>
  A block fires when some selected, non-empty field has a hit; its contribution to the
  boolean expression is negated when the block is excluded; operators are applied from
  left to right.
\<close>

definition fires :: "engine \<Rightarrow> string per_field \<Rightarrow> Compiled \<Rightarrow> bool" where
  "fires eng texts c = (perFieldHits_of eng c texts \<noteq> [])"

definition contribution :: "engine \<Rightarrow> string per_field \<Rightarrow> Compiled \<Rightarrow> bool" where
  "contribution eng texts c =
     (if exclude (block c) then \<not> fires eng texts c else fires eng texts c)"

definition apply_op :: "bool \<Rightarrow> Operator \<times> bool \<Rightarrow> bool" where
  "apply_op v p = (case fst p of AND \<Rightarrow> v \<and> snd p | OR \<Rightarrow> v \<or> snd p)"

definition pos_fired :: "engine \<Rightarrow> string per_field \<Rightarrow> Compiled \<Rightarrow> bool" where
  "pos_fired eng texts c = (\<not> exclude (block c) \<and> fires eng texts c)"

definition record_hit :: "engine \<Rightarrow> string per_field \<Rightarrow> hitMap \<Rightarrow> Compiled \<Rightarrow> hitMap" where
  "record_hit eng texts det c =
     (if pos_fired eng texts c
      then obj_set (cname c) (perFieldHits_of eng c texts) det else det)"

text \<open>
  The hit test, stated on the record's own field texts and the selection: a term hits a
  field when the field is selected, its text is not empty and the term's pattern tests
  true on it; the hit list of a field holds the terms that hit it, in the order of the
  block; a block fires when one of its terms hits some field.
\<close>

definition hit_list :: "engine \<Rightarrow> Compiled \<Rightarrow> string per_field \<Rightarrow> bool per_field \<Rightarrow> FieldName \<Rightarrow> string list" where
  "hit_list eng c flds sel f =
     (if field_of f sel \<and> field_of f flds \<noteq> []
      then map snd (filter (\<lambda>p. rx_test eng (source (fst p)) (flags (fst p)) (field_of f flds))
             (zip (regexes c) (cterms c)))
      else [])"

definition block_fires :: "engine \<Rightarrow> Compiled \<Rightarrow> string per_field \<Rightarrow> bool per_field \<Rightarrow> bool" where
  "block_fires eng c flds sel =
     list_ex (\<lambda>f. hit_list eng c flds sel f \<noteq> []) [Title, Abstract, Keywords]"

section \<open>A regular-expression engine for the compiled fragment\<close>

text \<open>
  The patterns that \<open>toSmartWordPattern\<close> builds from a term without metacharacters are
  sequences of \<^verbatim>\<open>\b\<close>, literal characters (escaped where the character is a syntax
  character), literal characters under a \<^verbatim>\<open>*\<close> (a star that the term itself contains)
  and \<^verbatim>\<open>[\w-]*\<close>. \<open>frag_test\<close> is ECMAScript's \<^verbatim>\<open>test\<close> on that fragment (a match
  may start at any position of the text; the flag \<^verbatim>\<open>i\<close> compares letters without
  case); a pattern outside the fragment is not read (\<open>parse_pat\<close> gives \<open>None\<close>). It
  instantiates the engine parameter on concrete inputs.
\<close>

datatype atom = Bnd | Lit char | LitStar char | WordDashStar

fun parse_pat :: "string \<Rightarrow> atom list option" where
  "parse_pat [] = Some []"
| "parse_pat (c # r) =
     (if c = bslash then
        (case r of [] \<Rightarrow> None
         | d # r' \<Rightarrow>
             if d = CHR ''b'' then map_option (Cons Bnd) (parse_pat r')
             else if d \<in> set syntax_chars then
               (if r' \<noteq> [] \<and> hd r' = CHR ''*''
                then map_option (Cons (LitStar d)) (parse_pat (tl r'))
                else map_option (Cons (Lit d)) (parse_pat r'))
             else None)
      else if c = CHR ''['' then
        (if take 5 r = [bslash] @ ''w-]*''
         then map_option (Cons WordDashStar) (parse_pat (drop 5 r)) else None)
      else if c \<in> set syntax_chars then None
      else if r \<noteq> [] \<and> hd r = CHR ''*''
        then map_option (Cons (LitStar c)) (parse_pat (tl r))
      else map_option (Cons (Lit c)) (parse_pat r))"

definition lower :: "char \<Rightarrow> char" where
  "lower c = (let n = (of_char c :: nat) in if 65 \<le> n \<and> n \<le> 90 then char_of (n + 32) else c)"

definition same_char :: "bool \<Rightarrow> char \<Rightarrow> char \<Rightarrow> bool" where
  "same_char ci a b = (if ci then lower a = lower b else a = b)"

definition at_boundary :: "char option \<Rightarrow> string \<Rightarrow> bool" where
  "at_boundary prev s =
     ((case prev of None \<Rightarrow> False | Some p \<Rightarrow> is_word p)
        \<noteq> (case s of [] \<Rightarrow> False | x # xs \<Rightarrow> is_word x))"

fun match_here :: "bool \<Rightarrow> atom list \<Rightarrow> char option \<Rightarrow> string \<Rightarrow> bool" where
  "match_here ci [] prev s = True"
| "match_here ci (Bnd # as) prev s = (at_boundary prev s \<and> match_here ci as prev s)"
| "match_here ci (Lit c # as) prev [] = False"
| "match_here ci (Lit c # as) prev (x # xs) =
     (same_char ci c x \<and> match_here ci as (Some x) xs)"
| "match_here ci (LitStar c # as) prev [] = match_here ci as prev []"
| "match_here ci (LitStar c # as) prev (x # xs) =
     ((if same_char ci c x then match_here ci (LitStar c # as) (Some x) xs else False)
      \<or> match_here ci as prev (x # xs))"
| "match_here ci (WordDashStar # as) prev [] = match_here ci as prev []"
| "match_here ci (WordDashStar # as) prev (x # xs) =
     ((if is_word x \<or> x = CHR ''-'' then match_here ci (WordDashStar # as) (Some x) xs
       else False)
      \<or> match_here ci as prev (x # xs))"

fun search :: "bool \<Rightarrow> atom list \<Rightarrow> char option \<Rightarrow> string \<Rightarrow> bool" where
  "search ci as prev [] = match_here ci as prev []"
| "search ci as prev (x # xs) = (match_here ci as prev (x # xs) \<or> search ci as (Some x) xs)"

definition frag_test :: "string \<Rightarrow> string \<Rightarrow> string \<Rightarrow> bool" where
  "frag_test src fl text =
     (case parse_pat src of None \<Rightarrow> False
      | Some as \<Rightarrow> search (CHR ''i'' \<in> set fl) as None text)"

definition frag_engine :: engine where
  "frag_engine = \<lparr>rx_valid = (\<lambda>p. parse_pat p \<noteq> None), rx_test = frag_test\<rparr>"

section \<open>Example inputs\<close>

definition mk_block :: "string \<Rightarrow> string list \<Rightarrow> bool \<Rightarrow> Block" where
  "mk_block n ts ex = \<lparr>bid = n, name = n, terms = ts, isRegex = False, exclude = ex\<rparr>"

definition all_fields :: "bool per_field" where
  "all_fields = \<lparr>f_title = True, f_abstract = True, f_keywords = True\<rparr>"

definition mk_cfg :: "Block list \<Rightarrow> Operator list \<Rightarrow> QueryConfig" where
  "mk_cfg bs ops =
     \<lparr>blocks = bs, operators = ops, caseInsensitive = True, searchFields = all_fields\<rparr>"

definition title_only :: "string \<Rightarrow> string per_field" where
  "title_only t = \<lparr>f_title = t, f_abstract = [], f_keywords = []\<rparr>"

definition cfg_abc :: QueryConfig where
  "cfg_abc = mk_cfg [mk_block ''A'' [''virtual reality''] False,
                     mk_block ''B'' [''remote''] False,
                     mk_block ''C'' [''study''] False] [OR, AND]"

definition cfg_not :: QueryConfig where
  "cfg_not = mk_cfg [mk_block ''A'' [''reality''] False,
                     mk_block ''N'' [''survey''] True] [AND]"

definition cfg_blank :: QueryConfig where
  "cfg_blank = mk_cfg [mk_block ''A'' [[], ''  ''] False, mk_block ''B'' [] True] [AND]"

definition cfg_proto :: QueryConfig where
  "cfg_proto = mk_cfg [mk_block ''__proto__'' [''vr''] False] []"

lemmas run_defs = mk_cfg_def mk_block_def all_fields_def title_only_def compile_def
  compile_block_def Let_def trim_def is_space_def toSmartWordPattern_def hasRegexMeta_def
  meta_chars_def escExceptStar_def escape_with_def esc_chars_def syntax_chars_def
  safeRegExp_def frag_engine_def frag_test_def is_word_def same_char_def lower_def
  at_boundary_def texts_of_def fires_def contribution_def pos_fired_def record_hit_def
  perFieldHits_of_def field_hits_def apply_op_def

section \<open>The evaluator's loop, characterised\<close>

lemma eval_loop_char:
  "eval_loop eng ops compiled texts i st =
     \<lparr>ok = foldl apply_op (ok st)
             (zip (drop i ops) (map (contribution eng texts) (drop (Suc i) compiled))),
      matchedBlocks = matchedBlocks st @
        map cname (filter (pos_fired eng texts)
          (take (length ops - i) (drop (Suc i) compiled))),
      detailed = foldl (record_hit eng texts) (detailed st)
        (take (length ops - i) (drop (Suc i) compiled))\<rparr>"
proof (induction "length ops - i" arbitrary: i st)
  case 0
  then have "drop i ops = []" by simp
  with 0 show ?case
    by (subst eval_loop.simps) simp
next
  case (Suc k)
  show ?case
  proof (cases "Suc i < length compiled")
    case True
    from Suc.hyps(2) have lt: "i < length ops" and k: "k = length ops - Suc i" by arith+
    have d1: "drop i ops = ops ! i # drop (Suc i) ops"
      using lt by (simp add: Cons_nth_drop_Suc)
    have d2: "drop (Suc i) compiled = compiled ! Suc i # drop (Suc (Suc i)) compiled"
      using True by (simp add: Cons_nth_drop_Suc)
    have t: "length ops - i = Suc (length ops - Suc i)" using lt by arith
    show ?thesis
      apply (subst eval_loop.simps)
      using True lt
      apply (simp add: Let_def Suc.hyps(1)[OF k] d1 d2 t)
      apply (auto simp: blockHitAtLeastOne_def Let_def apply_op_def contribution_def fires_def
          pos_fired_def record_hit_def split: Operator.splits)
      done
  next
    case False
    then have "drop (Suc i) compiled = []" by simp
    with False show ?thesis
      by (subst eval_loop.simps) simp
  qed
qed

lemma matchesByFields_nonempty:
  assumes "compile eng cfg = c0 # cs"
  shows "matchesByFields eng cfg flds sel =
     \<lparr>ok = foldl apply_op (contribution eng (texts_of flds sel) c0)
             (zip (operators cfg) (map (contribution eng (texts_of flds sel)) cs)),
      matchedBlocks = map cname (filter (pos_fired eng (texts_of flds sel))
             (c0 # take (length (operators cfg)) cs)),
      detailed = foldl (record_hit eng (texts_of flds sel)) []
             (c0 # take (length (operators cfg)) cs)\<rparr>"
  using assms
  by (auto simp: matchesByFields_def Let_def eval_loop_char blockHitAtLeastOne_def
      contribution_def fires_def pos_fired_def record_hit_def)

lemma matchesByFields_empty:
  assumes "compile eng cfg = []"
  shows "matchesByFields eng cfg flds sel = \<lparr>ok = True, matchedBlocks = [], detailed = []\<rparr>"
  using assms by (simp add: matchesByFields_def)

lemma map_filter_Nil_iff: "List.map_filter f xs = [] \<longleftrightarrow> (\<forall>x \<in> set xs. f x = None)"
  by (induction xs) (auto split: option.splits)

lemma compile_Nil_iff:
  "compile eng cfg = [] \<longleftrightarrow>
     (\<forall>b \<in> set (blocks cfg). filter (\<lambda>t. trim t \<noteq> []) (terms b) = [])"
proof -
  have "snd ` set (enumerate 0 (blocks cfg)) = set (blocks cfg)"
    by (metis map_snd_enumerate set_map)
  then show ?thesis
    unfolding compile_def map_filter_Nil_iff
    by (force simp: compile_block_def Let_def)
qed

lemma keys_record_hits:
  "fst ` set (foldl (record_hit eng texts) det cs) =
     fst ` set det \<union> cname ` {c \<in> set cs. pos_fired eng texts c \<and> cname c \<noteq> ''__proto__''}"
  by (induction cs arbitrary: det) (auto simp: record_hit_def obj_set_def dom_update)

lemma length_map_filter_le: "length (List.map_filter f xs) \<le> length xs"
  by (induction xs) (auto split: option.splits)

lemma length_compile_le: "length (compile eng cfg) \<le> length (blocks cfg)"
  unfolding compile_def by (metis length_map_filter_le length_enumerate)

lemma fires_iff:
  "fires eng texts c \<longleftrightarrow>
     (\<exists>f. field_of f texts \<noteq> [] \<and>
        (\<exists>p \<in> set (zip (regexes c) (cterms c)).
            rx_test eng (source (fst p)) (flags (fst p)) (field_of f texts)))"
proof -
  have *: "(\<exists>f. P f) \<longleftrightarrow> P Title \<or> P Abstract \<or> P Keywords" for P
    by (metis FieldName.exhaust)
  show ?thesis
    unfolding *
    by (auto simp: fires_def perFieldHits_of_def field_hits_def Let_def filter_empty_conv)
qed

lemma map_of_record_hits_other:
  "n \<notin> cname ` set cs \<Longrightarrow> map_of (foldl (record_hit eng texts) det cs) n = map_of det n"
  by (induction cs arbitrary: det) (auto simp: record_hit_def obj_set_def update_conv')

lemma map_of_record_hits:
  "distinct (map cname cs) \<Longrightarrow> c \<in> set cs \<Longrightarrow> pos_fired eng texts c \<Longrightarrow>
     cname c \<noteq> ''__proto__'' \<Longrightarrow>
     map_of (foldl (record_hit eng texts) det cs) (cname c) = Some (perFieldHits_of eng c texts)"
proof (induction cs arbitrary: det)
  case Nil
  then show ?case by simp
next
  case (Cons a cs)
  show ?case
  proof (cases "c = a")
    case True
    with Cons.prems have "cname c \<notin> cname ` set cs" by auto
    then have "map_of (foldl (record_hit eng texts) (record_hit eng texts det a) cs) (cname c)
        = map_of (record_hit eng texts det a) (cname c)"
      by (rule map_of_record_hits_other)
    also have "\<dots> = Some (perFieldHits_of eng c texts)"
      using True Cons.prems(3,4) by (simp add: record_hit_def obj_set_def update_conv')
    finally show ?thesis by simp
  next
    case False
    with Cons show ?thesis by auto
  qed
qed

lemma field_terms_perFieldHits:
  "(case map_of (perFieldHits_of eng c (texts_of flds sel)) f of Some ts \<Rightarrow> ts | None \<Rightarrow> [])
     = hit_list eng c flds sel f"
  by (cases f)
     (auto simp: perFieldHits_of_def texts_of_def hit_list_def field_hits_def Let_def)

lemma fires_block_fires:
  "fires eng (texts_of flds sel) c = block_fires eng c flds sel"
  by (auto simp: fires_def block_fires_def perFieldHits_of_def texts_of_def hit_list_def
      field_hits_def Let_def)

lemma proto_not_key:
  "''__proto__'' \<notin> fst ` set det \<Longrightarrow>
     ''__proto__'' \<notin> fst ` set (foldl (record_hit eng texts) det cs)"
  unfolding keys_record_hits by auto

section \<open>Records of the bibliography\<close>

text \<open>
  A parsed entry is the object \<^verbatim>\<open>{ entry_type, citekey, ...fields, __raw }\<close>. The spread
  fields are kept apart as an association list in insertion order; a field named
  \<^verbatim>\<open>citekey\<close> or \<^verbatim>\<open>entry_type\<close> overrides the header's value (it is spread after it), and
  \<^verbatim>\<open>__raw\<close> always is the chunk.
\<close>

record Entry =
  entry_type :: string
  citekey :: string
  efields :: "(string \<times> string) list"
  raw :: string

definition eprop :: "Entry \<Rightarrow> string \<Rightarrow> string option" where
  "eprop e k =
     (if k = ''__raw'' then Some (raw e)
      else (case map_of (efields e) k of
              Some v \<Rightarrow> Some v
            | None \<Rightarrow> (if k = ''entry_type'' then Some (entry_type e)
                        else if k = ''citekey'' then Some (citekey e) else None)))"

text \<open>\<^verbatim>\<open>a || b || ... || ""\<close> on strings: the first operand that is a non-empty string.\<close>

fun first_truthy :: "string option list \<Rightarrow> string" where
  "first_truthy [] = []"
| "first_truthy (None # r) = first_truthy r"
| "first_truthy (Some s # r) = (if s \<noteq> [] then s else first_truthy r)"

fun join :: "string \<Rightarrow> string list \<Rightarrow> string" where
  "join sep [] = []"
| "join sep [x] = x"
| "join sep (x # y # r) = x @ sep @ join sep (y # r)"

section \<open>TermStatsAggregator\<close>

record TermStat =
  docCount :: nat
  fieldCounts :: "nat per_field"

type_synonym termMap = "(string \<times> TermStat) list"

record Row =
  CiteKey :: string
  TitleRaw :: string
  AbstractRaw :: string
  KeywordsRaw :: string
  MatchedTermsMap :: hitMap
  MatchedBlocks :: "string option"
  PartialBlocks :: "string option"
  MissingBlocks :: "string option"

record TSState =
  overallDocCounts :: "(string \<times> nat) list"
  overallFieldCounts :: "(string \<times> nat) list per_field"
  perBlock :: "(string \<times> termMap) list"

text \<open>The per-row sets \<^verbatim>\<open>seenOverall\<close> and \<^verbatim>\<open>seenInBlock\<close> travel with the state.\<close>

record RowScan =
  tstate :: TSState
  seenOverall :: "string list"
  seenInBlock :: "(string \<times> string list) list"

definition zero_stat :: TermStat where
  "zero_stat = \<lparr>docCount = 0, fieldCounts = \<lparr>f_title = 0, f_abstract = 0, f_keywords = 0\<rparr>\<rparr>"

fun upd_field :: "FieldName \<Rightarrow> ('a \<Rightarrow> 'a) \<Rightarrow> 'a per_field \<Rightarrow> 'a per_field" where
  "upd_field Title g r = r\<lparr>f_title := g (f_title r)\<rparr>"
| "upd_field Abstract g r = r\<lparr>f_abstract := g (f_abstract r)\<rparr>"
| "upd_field Keywords g r = r\<lparr>f_keywords := g (f_keywords r)\<rparr>"

definition get_or :: "'v \<Rightarrow> ('k \<times> 'v) list \<Rightarrow> 'k \<Rightarrow> 'v" where
  "get_or d m k = (case map_of m k of Some v \<Rightarrow> v | None \<Rightarrow> d)"

definition bump :: "(string \<times> nat) list \<Rightarrow> string \<Rightarrow> (string \<times> nat) list" where
  "bump m k = AList.update k (get_or 0 m k + 1) m"

text \<open>
  \<^verbatim>\<open>seenInBlock\<close> is a \<^verbatim>\<open>Map\<close>: \<open>ensure\<close> is
  \<^verbatim>\<open>if (!m.has(k)) m.set(k, d)\<close>, with no inherited keys.
\<close>

definition ensure :: "'k \<Rightarrow> 'v \<Rightarrow> ('k \<times> 'v) list \<Rightarrow> ('k \<times> 'v) list" where
  "ensure k d m = (case map_of m k of Some v \<Rightarrow> m | None \<Rightarrow> AList.update k d m)"

text \<open>
  The body of the innermost loop when \<^verbatim>\<open>blk\<close> is a statistics object of the term map
  \<open>tm0\<close> of the block (an own entry, or the one that \<^verbatim>\<open>||=\<close> has just created). The
  source updates the statistics object in place; the model writes it back at its
  position.
\<close>

definition count_term :: "string \<Rightarrow> FieldName \<Rightarrow> RowScan \<Rightarrow> termMap \<Rightarrow> string \<Rightarrow> RowScan" where
  "count_term blockName f sc tm0 t =
     (let st = tstate sc;
          tm = or_assign t zero_stat tm0;
          blk = get_or zero_stat tm t;
          blk1 = blk\<lparr>fieldCounts := upd_field f (\<lambda>n. n + 1) (fieldCounts blk)\<rparr>;
          seenBlockSet = get_or [] (seenInBlock sc) blockName;
          fresh = (t \<notin> set seenBlockSet);
          blk2 = (if fresh then blk1\<lparr>docCount := docCount blk1 + 1\<rparr> else blk1);
          sib = (if fresh then AList.update blockName (seenBlockSet @ [t]) (seenInBlock sc)
                 else seenInBlock sc);
          pb = AList.update blockName (AList.update t blk2 tm) (perBlock st);
          ofc = upd_field f (\<lambda>m. bump m t) (overallFieldCounts st);
          freshO = (t \<notin> set (seenOverall sc));
          odc = (if freshO then bump (overallDocCounts st) t else overallDocCounts st);
          so = (if freshO then seenOverall sc @ [t] else seenOverall sc)
      in \<lparr>tstate = \<lparr>overallDocCounts = odc, overallFieldCounts = ofc, perBlock = pb\<rparr>,
          seenOverall = so, seenInBlock = sib\<rparr>)"

text \<open>
  \<^verbatim>\<open>const blk = (perBlock[blockName][term] ||= {...}); blk.fields[f]++\<close>.
  \<^verbatim>\<open>perBlock[blockName]\<close> is the block's own term map; or, when the block name is a
  member of \<^verbatim>\<open>Object.prototype\<close> (for which \<^verbatim>\<open>perBlock[blockName] ||= {}\<close> has assigned
  nothing), that built-in member, which the code then indexes with the term; or
  \<^verbatim>\<open>undefined\<close>, whose indexing throws. In the term map, a term that is the name of a
  member of \<^verbatim>\<open>Object.prototype\<close> reads as that member: nothing is assigned, \<^verbatim>\<open>blk\<close> is
  the member, \<^verbatim>\<open>blk.fields\<close> is \<^verbatim>\<open>undefined\<close> and \<^verbatim>\<open>blk.fields[f]++\<close> throws.
\<close>

definition term_step :: "string \<Rightarrow> FieldName \<Rightarrow> RowScan \<Rightarrow> string \<Rightarrow> RowScan outcome" where
  "term_step blockName f sc t =
     (case obj_get (perBlock (tstate sc)) blockName of
        Undefined \<Rightarrow> Throws TypeError
      | Inherited \<Rightarrow> HostDependent
      | Own tm0 \<Rightarrow>
          (case obj_get tm0 t of
             Inherited \<Rightarrow> Throws TypeError
           | Own blk \<Rightarrow> Returns (count_term blockName f sc tm0 t)
           | Undefined \<Rightarrow> Returns (count_term blockName f sc tm0 t)))"

text \<open>\<^verbatim>\<open>fields?.[f] || []\<close>.\<close>

definition field_terms :: "perFieldHits \<Rightarrow> FieldName \<Rightarrow> string list" where
  "field_terms flds f = get_or [] flds f"

definition field_step :: "string \<Rightarrow> perFieldHits \<Rightarrow> RowScan \<Rightarrow> FieldName \<Rightarrow> RowScan outcome" where
  "field_step blockName flds sc f = for_each (term_step blockName f) sc (field_terms flds f)"

definition block_step :: "RowScan \<Rightarrow> string \<times> perFieldHits \<Rightarrow> RowScan outcome" where
  "block_step sc p =
     (let blockName = fst p; flds = snd p;
          st = tstate sc;
          sc1 = sc\<lparr>tstate := st\<lparr>perBlock := or_assign blockName [] (perBlock st)\<rparr>,
                   seenInBlock := ensure blockName [] (seenInBlock sc)\<rparr>
      in for_each (field_step blockName flds) sc1 [Title, Abstract, Keywords])"

text \<open>One row: \<^verbatim>\<open>for (const [blockName, fields] of Object.entries(mtm))\<close>.\<close>

definition row_step :: "TSState \<Rightarrow> Row \<Rightarrow> TSState outcome" where
  "row_step st r =
     (case for_each block_step \<lparr>tstate = st, seenOverall = [], seenInBlock = []\<rparr>
             (obj_entries (MatchedTermsMap r)) of
        Returns sc \<Rightarrow> Returns (tstate sc)
      | Throws e \<Rightarrow> Throws e
      | HostDependent \<Rightarrow> HostDependent)"

definition block_name :: "nat \<times> Block \<Rightarrow> string" where
  "block_name p = (if name (snd p) = [] then ''Block '' @ show_nat (fst p + 1) else name (snd p))"

text \<open>
  The zero fill, \<^verbatim>\<open>perBlock[name][term] ||= {...}\<close> for every configured term that is not
  blank: as above \<^verbatim>\<open>perBlock[name]\<close> is the block's own term map, or a built-in member
  that the code indexes with the term; in the term map nothing is assigned under the name
  of a member of \<^verbatim>\<open>Object.prototype\<close>.
\<close>

definition fill_term :: "string \<Rightarrow> (string \<times> termMap) list \<Rightarrow> string \<Rightarrow> (string \<times> termMap) list outcome" where
  "fill_term n pb rawterm =
     (let t = trim rawterm in
      if t = [] then Returns pb
      else (case obj_get pb n of
              Undefined \<Rightarrow> Throws TypeError
            | Inherited \<Rightarrow> HostDependent
            | Own tm \<Rightarrow> Returns (AList.update n (or_assign t zero_stat tm) pb)))"

definition fill_block :: "(string \<times> termMap) list \<Rightarrow> nat \<times> Block \<Rightarrow> (string \<times> termMap) list outcome" where
  "fill_block pb p =
     (let n = block_name p in for_each (fill_term n) (or_assign n [] pb) (terms (snd p)))"

text \<open>Stable sorting by descending count, as \<^verbatim>\<open>sort((a, b) => b.docCount - a.docCount)\<close>.\<close>

definition sort_desc :: "('a \<Rightarrow> nat) \<Rightarrow> 'a list \<Rightarrow> 'a list" where
  "sort_desc key xs = rev (sort_key key (rev xs))"

record TermStats =
  totalMatchedStudies :: nat
  overallTop :: "(string \<times> nat) list"
  topByBlock :: "(string \<times> (string \<times> TermStat) list) list"
  ts_perBlock :: "(string \<times> termMap) list"
  ts_overallFieldCounts :: "(string \<times> nat) list per_field"

text \<open>
  The maps \<^verbatim>\<open>overallDocCounts\<close> and \<^verbatim>\<open>overallFieldCounts\<close> are \<^verbatim>\<open>Map\<close>s and keep
  the order of insertion; \<^verbatim>\<open>perBlock\<close> and its term maps are plain objects, enumerated
  by \<^verbatim>\<open>Object.entries\<close>; \<^verbatim>\<open>Object.fromEntries\<close> creates the properties in the order of
  the entries.
\<close>

definition computeTermStats :: "QueryConfig \<Rightarrow> Row list \<Rightarrow> TermStats outcome" where
  "computeTermStats cfg rows =
     (case for_each row_step
             \<lparr>overallDocCounts = [],
              overallFieldCounts = \<lparr>f_title = [], f_abstract = [], f_keywords = []\<rparr>,
              perBlock = []\<rparr> rows of
        Throws e \<Rightarrow> Throws e
      | HostDependent \<Rightarrow> HostDependent
      | Returns st \<Rightarrow>
          (case for_each fill_block (perBlock st) (enumerate 0 (blocks cfg)) of
             Throws e \<Rightarrow> Throws e
           | HostDependent \<Rightarrow> HostDependent
           | Returns pb \<Rightarrow>
               Returns
                 \<lparr>totalMatchedStudies = length rows,
                  overallTop = sort_desc snd (overallDocCounts st),
                  topByBlock =
                    map (\<lambda>p. (fst p, sort_desc (\<lambda>q. docCount (snd q)) (obj_entries (snd p))))
                      (obj_entries pb),
                  ts_perBlock = pb,
                  ts_overallFieldCounts = overallFieldCounts st\<rparr>))"

section \<open>The run\<close>

record Report =
  r_total :: nat
  r_eligible :: nat
  r_matched :: nat
  r_partial :: nat
  r_unmatched :: nat

record RunState =
  eligible :: nat
  matchedRows :: "Row list"
  partialRows :: "Row list"
  unmatchedRows :: "Row list"

record RunOutput =
  o_matched :: "Row list"
  o_partial :: "Row list"
  o_unmatched :: "Row list"
  report :: Report
  termStats :: TermStats

definition entry_texts :: "Entry \<Rightarrow> string per_field" where
  "entry_texts e =
     \<lparr>f_title = first_truthy [eprop e ''title''],
      f_abstract = first_truthy [eprop e ''abstract'', eprop e ''abs'', eprop e ''summary''],
      f_keywords = first_truthy [eprop e ''keywords'', eprop e ''keyword'']\<rparr>"

definition hasAny :: "QueryConfig \<Rightarrow> string per_field \<Rightarrow> bool" where
  "hasAny cfg t =
     ((f_title (searchFields cfg) \<and> f_title t \<noteq> [])
      \<or> (f_abstract (searchFields cfg) \<and> f_abstract t \<noteq> [])
      \<or> (f_keywords (searchFields cfg) \<and> f_keywords t \<noteq> []))"

definition entry_citekey :: "Entry \<Rightarrow> string" where
  "entry_citekey e = (case eprop e ''citekey'' of Some v \<Rightarrow> v | None \<Rightarrow> [])"

definition base_row :: "Entry \<Rightarrow> string per_field \<Rightarrow> hitMap \<Rightarrow> Row" where
  "base_row e t det =
     \<lparr>CiteKey = entry_citekey e,
      TitleRaw = f_title t, AbstractRaw = f_abstract t, KeywordsRaw = f_keywords t,
      MatchedTermsMap = det,
      MatchedBlocks = None, PartialBlocks = None, MissingBlocks = None\<rparr>"

definition missing_blocks :: "QueryConfig \<Rightarrow> hitMap \<Rightarrow> string list" where
  "missing_blocks cfg det =
     (let allPosBlocks = map block_name (enumerate 0 (filter (\<lambda>b. \<not> exclude b) (blocks cfg)));
          hitBlocks = obj_keys det
      in filter (\<lambda>n. n \<notin> set hitBlocks) allPosBlocks)"

definition matched_row :: "Entry \<Rightarrow> string per_field \<Rightarrow> MatchOut \<Rightarrow> Row" where
  "matched_row e t m =
     (base_row e t (detailed m))\<lparr>MatchedBlocks := Some (join ''; '' (matchedBlocks m))\<rparr>"

definition partial_row :: "QueryConfig \<Rightarrow> Entry \<Rightarrow> string per_field \<Rightarrow> MatchOut \<Rightarrow> Row" where
  "partial_row cfg e t m =
     (base_row e t (detailed m))
       \<lparr>PartialBlocks := Some (join ''; '' (obj_keys (detailed m))),
        MissingBlocks := Some (join ''; '' (missing_blocks cfg (detailed m)))\<rparr>"

definition unmatched_row :: "Entry \<Rightarrow> string per_field \<Rightarrow> MatchOut \<Rightarrow> Row" where
  "unmatched_row e t m = base_row e t (detailed m)"

definition run_step :: "engine \<Rightarrow> QueryConfig \<Rightarrow> RunState \<Rightarrow> Entry \<Rightarrow> RunState" where
  "run_step eng cfg st e =
     (let t = entry_texts e;
          has = hasAny cfg t;
          st1 = (if has then st\<lparr>eligible := eligible st + 1\<rparr> else st);
          m = matchesByFields eng cfg t (searchFields cfg)
      in if ok m \<and> has then
           st1\<lparr>matchedRows := matchedRows st1 @ [matched_row e t m]\<rparr>
         else if has \<and> detailed m \<noteq> [] then
           st1\<lparr>partialRows := partialRows st1 @ [partial_row cfg e t m]\<rparr>
         else if has then
           st1\<lparr>unmatchedRows := unmatchedRows st1 @ [unmatched_row e t m]\<rparr>
         else st1)"

text \<open>
  The body of \<^verbatim>\<open>run\<close> after the parse. The loop over the entries does not throw; an
  exception of \<^verbatim>\<open>computeTermStats\<close> leaves the \<^verbatim>\<open>try\<close> block before \<^verbatim>\<open>setRunOutput\<close>
  is reached, so the run then has no output (the handler shows the message and sets the
  output to \<^verbatim>\<open>null\<close>).
\<close>

definition run_entries :: "engine \<Rightarrow> QueryConfig \<Rightarrow> Entry list \<Rightarrow> RunOutput outcome" where
  "run_entries eng cfg entries =
     (let st = foldl (run_step eng cfg)
                 \<lparr>eligible = 0, matchedRows = [], partialRows = [], unmatchedRows = []\<rparr> entries
      in (case computeTermStats cfg (matchedRows st) of
            Throws e \<Rightarrow> Throws e
          | HostDependent \<Rightarrow> HostDependent
          | Returns stats \<Rightarrow>
              Returns
                \<lparr>o_matched = matchedRows st, o_partial = partialRows st,
                 o_unmatched = unmatchedRows st,
                 report = \<lparr>r_total = length entries, r_eligible = eligible st,
                           r_matched = length (matchedRows st),
                           r_partial = length (partialRows st),
                           r_unmatched = length (unmatchedRows st)\<rparr>,
                 termStats = stats\<rparr>))"

subsection \<open>Classification in the words of the specification\<close>

text \<open>
  The texts of a record that the matching engine reads are its \<^verbatim>\<open>title\<close>, the first
  non-empty of its \<^verbatim>\<open>abstract\<close>, \<^verbatim>\<open>abs\<close> and \<^verbatim>\<open>summary\<close>, and the first non-empty of its
  \<^verbatim>\<open>keywords\<close> and \<^verbatim>\<open>keyword\<close>. A record is eligible when the text of some selected
  field is not empty. An eligible record is Matched when the boolean fold is true, else
  Partial when its hit map is not empty, else Unmatched.
\<close>

datatype Outcome = Matched | Partial | Unmatched | Ineligible

fun first_nonempty :: "Entry \<Rightarrow> string list \<Rightarrow> string" where
  "first_nonempty e [] = []"
| "first_nonempty e (k # ks) =
     (case eprop e k of
        None \<Rightarrow> first_nonempty e ks
      | Some v \<Rightarrow> if v = [] then first_nonempty e ks else v)"

fun record_text :: "Entry \<Rightarrow> FieldName \<Rightarrow> string" where
  "record_text e Title = first_nonempty e [''title'']"
| "record_text e Abstract = first_nonempty e [''abstract'', ''abs'', ''summary'']"
| "record_text e Keywords = first_nonempty e [''keywords'', ''keyword'']"

definition record_texts :: "Entry \<Rightarrow> string per_field" where
  "record_texts e =
     \<lparr>f_title = record_text e Title, f_abstract = record_text e Abstract,
      f_keywords = record_text e Keywords\<rparr>"

definition is_eligible :: "QueryConfig \<Rightarrow> Entry \<Rightarrow> bool" where
  "is_eligible cfg e =
     list_ex (\<lambda>f. field_of f (searchFields cfg) \<and> record_text e f \<noteq> [])
       [Title, Abstract, Keywords]"

definition evaluate :: "engine \<Rightarrow> QueryConfig \<Rightarrow> Entry \<Rightarrow> MatchOut" where
  "evaluate eng cfg e = matchesByFields eng cfg (record_texts e) (searchFields cfg)"

definition outcome :: "engine \<Rightarrow> QueryConfig \<Rightarrow> Entry \<Rightarrow> Outcome" where
  "outcome eng cfg e =
     (if \<not> is_eligible cfg e then Ineligible
      else if ok (evaluate eng cfg e) then Matched
      else if detailed (evaluate eng cfg e) \<noteq> [] then Partial
      else Unmatched)"

text \<open>
  A configuration has plain names when no block name and no term is the name of a
  member of \<^verbatim>\<open>Object.prototype\<close>.
\<close>

definition plain_names :: "QueryConfig \<Rightarrow> bool" where
  "plain_names cfg =
     list_all (\<lambda>p. block_name p \<notin> set proto_names
                  \<and> list_all (\<lambda>t. t \<notin> set proto_names) (terms (snd p)))
       (enumerate 0 (blocks cfg))"

lemma entry_texts_record: "entry_texts e = record_texts e"
  by (simp add: entry_texts_def record_texts_def split: option.splits)

lemma hasAny_eligible: "hasAny cfg (record_texts e) = is_eligible cfg e"
  by (auto simp: hasAny_def is_eligible_def record_texts_def)

lemma run_loop_char:
  "foldl (run_step eng cfg) st entries =
     \<lparr>eligible = eligible st + length (filter (is_eligible cfg) entries),
      matchedRows = matchedRows st @
        map (\<lambda>e. matched_row e (record_texts e) (evaluate eng cfg e))
          (filter (\<lambda>e. outcome eng cfg e = Matched) entries),
      partialRows = partialRows st @
        map (\<lambda>e. partial_row cfg e (record_texts e) (evaluate eng cfg e))
          (filter (\<lambda>e. outcome eng cfg e = Partial) entries),
      unmatchedRows = unmatchedRows st @
        map (\<lambda>e. unmatched_row e (record_texts e) (evaluate eng cfg e))
          (filter (\<lambda>e. outcome eng cfg e = Unmatched) entries)\<rparr>"
proof (induction entries arbitrary: st)
  case Nil
  show ?case by simp
next
  case (Cons e es)
  show ?case
    unfolding foldl_Cons Cons.IH
    by (simp add: run_step_def Let_def hasAny_eligible outcome_def evaluate_def
        entry_texts_record)
qed

lemma outcome_partition:
  "length (filter (\<lambda>e. outcome eng cfg e = Matched) es)
   + length (filter (\<lambda>e. outcome eng cfg e = Partial) es)
   + length (filter (\<lambda>e. outcome eng cfg e = Unmatched) es)
   = length (filter (is_eligible cfg) es)"
  by (induction es) (auto simp: outcome_def)

subsection \<open>Term statistics in the words of the specification\<close>

text \<open>
  The terms that appear in the hit map of a row, and the number of rows in whose hit map
  a term appears. \<open>look\<close> reads the statistics of a term in the breakdown of a block.
\<close>

definition row_terms :: "Row \<Rightarrow> string list" where
  "row_terms r =
     concat (map (\<lambda>p. concat (map (field_terms (snd p)) [Title, Abstract, Keywords]))
       (MatchedTermsMap r))"

definition doc_frequency :: "Row list \<Rightarrow> string \<Rightarrow> nat" where
  "doc_frequency rows t = length (filter (\<lambda>r. t \<in> set (row_terms r)) rows)"

definition look :: "(string \<times> termMap) list \<Rightarrow> string \<Rightarrow> string \<Rightarrow> TermStat option" where
  "look pb n t = map_of (get_or [] pb n) t"

section \<open>The aggregator's loops, characterised\<close>

subsection \<open>Loops that may throw\<close>

lemma for_each_foldl:
  assumes "\<And>s x s'. f s x = Returns s' \<Longrightarrow> s' = g s x"
  shows "for_each f s xs = Returns s' \<Longrightarrow> s' = foldl g s xs"
proof (induction xs arbitrary: s)
  case Nil
  then show ?case by simp
next
  case (Cons x xs)
  from Cons.prems obtain s1 where a: "f s x = Returns s1" and b: "for_each f s1 xs = Returns s'"
    by (auto split: outcome.splits)
  from assms[OF a] Cons.IH[OF b] show ?case by simp
qed

lemma for_each_inv:
  assumes "\<And>s x s'. I s \<Longrightarrow> x \<in> set xs \<Longrightarrow> f s x = Returns s' \<Longrightarrow> I s'"
  shows "I s \<Longrightarrow> for_each f s xs = Returns s' \<Longrightarrow> I s'"
  using assms
proof (induction xs arbitrary: s)
  case Nil
  then show ?case by simp
next
  case (Cons x xs)
  from Cons.prems(2) obtain s1 where a: "f s x = Returns s1" and b: "for_each f s1 xs = Returns s'"
    by (auto split: outcome.splits)
  from Cons.prems(3)[OF Cons.prems(1) _ a] have i: "I s1" by simp
  show ?case
  proof (rule Cons.IH[OF i b])
    fix s y s' assume "I s" "y \<in> set xs" "f s y = Returns s'"
    then show "I s'" using Cons.prems(3)[of s y s'] by simp
  qed
qed

lemma for_each_Returns:
  assumes "\<And>s x. I s \<Longrightarrow> x \<in> set xs \<Longrightarrow> \<exists>s'. f s x = Returns s' \<and> I s'"
  shows "I s \<Longrightarrow> \<exists>s'. for_each f s xs = Returns s' \<and> I s'"
  using assms
proof (induction xs arbitrary: s)
  case Nil
  then show ?case by simp
next
  case (Cons x xs)
  from Cons.prems(2)[OF Cons.prems(1), of x] obtain s1 where a: "f s x = Returns s1" and i: "I s1"
    by auto
  have "\<exists>s'. for_each f s1 xs = Returns s' \<and> I s'"
  proof (rule Cons.IH[OF i])
    fix s y assume "I s" "y \<in> set xs"
    then show "\<exists>s'. f s y = Returns s' \<and> I s'" using Cons.prems(2)[of s y] by simp
  qed
  with a show ?case by simp
qed

subsection \<open>Enumeration of a plain object\<close>

lemma set_obj_entries [simp]: "set (obj_entries m) = set m"
  by (auto simp: obj_entries_def)

lemma mset_obj_entries: "mset (obj_entries m) = mset m"
  by (simp add: obj_entries_def)

lemma distinct_obj_entries:
  assumes "distinct (map fst m)"
  shows "distinct (map fst (obj_entries m))"
proof -
  from assms have dx: "distinct m" and inj: "inj_on fst (set m)"
    by (simp_all add: distinct_map)
  have "distinct (obj_entries m)"
    using dx mset_obj_entries[of m] by (metis mset_eq_imp_distinct_iff)
  with inj show ?thesis by (simp add: distinct_map)
qed

lemma map_of_obj_entries:
  assumes "distinct (map fst m)"
  shows "map_of (obj_entries m) = map_of m"
  using assms distinct_obj_entries[OF assms] by (simp add: map_of_inject_set)

lemma set_obj_keys [simp]: "set (obj_keys m) = fst ` set m"
  by (simp add: obj_keys_def)

lemma map_of_or_assign:
  "map_of (or_assign k d m) k' =
     (if k' = k \<and> map_of m k = None \<and> k \<notin> set proto_names then Some d else map_of m k')"
  by (cases "map_of m k") (auto simp: or_assign_def obj_get_def update_conv')

lemma distinct_or_assign: "distinct (map fst m) \<Longrightarrow> distinct (map fst (or_assign k d m))"
  by (auto simp: or_assign_def obj_get_def distinct_update split: option.splits)

subsection \<open>The steps of the loops when they return\<close>

definition term_count :: "string \<Rightarrow> FieldName \<Rightarrow> RowScan \<Rightarrow> string \<Rightarrow> RowScan" where
  "term_count bn f sc t = count_term bn f sc (get_or [] (perBlock (tstate sc)) bn) t"

definition field_count :: "string \<Rightarrow> perFieldHits \<Rightarrow> RowScan \<Rightarrow> FieldName \<Rightarrow> RowScan" where
  "field_count bn flds sc f = foldl (term_count bn f) sc (field_terms flds f)"

definition block_count :: "RowScan \<Rightarrow> string \<times> perFieldHits \<Rightarrow> RowScan" where
  "block_count sc p =
     foldl (field_count (fst p) (snd p))
       (sc\<lparr>tstate := (tstate sc)\<lparr>perBlock := or_assign (fst p) [] (perBlock (tstate sc))\<rparr>,
           seenInBlock := ensure (fst p) [] (seenInBlock sc)\<rparr>)
       [Title, Abstract, Keywords]"

definition row_count :: "TSState \<Rightarrow> Row \<Rightarrow> TSState" where
  "row_count st r =
     tstate (foldl block_count \<lparr>tstate = st, seenOverall = [], seenInBlock = []\<rparr>
               (obj_entries (MatchedTermsMap r)))"

definition put_zero :: "string \<Rightarrow> (string \<times> termMap) list \<Rightarrow> string \<Rightarrow> (string \<times> termMap) list" where
  "put_zero n pb rawterm =
     (if trim rawterm = [] then pb
      else AList.update n (or_assign (trim rawterm) zero_stat (get_or [] pb n)) pb)"

definition put_block :: "(string \<times> termMap) list \<Rightarrow> nat \<times> Block \<Rightarrow> (string \<times> termMap) list" where
  "put_block pb p = foldl (put_zero (block_name p)) (or_assign (block_name p) [] pb) (terms (snd p))"

lemma term_step_Returns: "term_step bn f sc t = Returns sc' \<Longrightarrow> sc' = term_count bn f sc t"
  by (auto simp: term_step_def term_count_def obj_get_def get_or_def
      split: option.splits if_splits lookup.splits)

lemma field_step_Returns: "field_step bn flds sc f = Returns sc' \<Longrightarrow> sc' = field_count bn flds sc f"
  unfolding field_step_def field_count_def
  by (rule for_each_foldl[where f = "term_step bn f"]) (rule term_step_Returns)

lemma block_step_Returns: "block_step sc p = Returns sc' \<Longrightarrow> sc' = block_count sc p"
  unfolding block_step_def block_count_def Let_def
  by (rule for_each_foldl[where f = "field_step (fst p) (snd p)"]) (rule field_step_Returns)

lemma row_step_Returns: "row_step st r = Returns st' \<Longrightarrow> st' = row_count st r"
proof -
  assume a: "row_step st r = Returns st'"
  then obtain sc where
    b: "for_each block_step \<lparr>tstate = st, seenOverall = [], seenInBlock = []\<rparr>
          (obj_entries (MatchedTermsMap r)) = Returns sc" and c: "st' = tstate sc"
    by (auto simp: row_step_def split: outcome.splits)
  from for_each_foldl[where f = block_step and g = block_count, OF block_step_Returns b]
  show ?thesis by (simp add: c row_count_def)
qed

lemma rows_Returns: "for_each row_step st rows = Returns st' \<Longrightarrow> st' = foldl row_count st rows"
  by (rule for_each_foldl[where f = row_step]) (rule row_step_Returns)

lemma fill_term_Returns: "fill_term n pb rawterm = Returns pb' \<Longrightarrow> pb' = put_zero n pb rawterm"
  by (auto simp: fill_term_def put_zero_def Let_def obj_get_def get_or_def
      split: option.splits if_splits)

lemma fill_block_Returns: "fill_block pb p = Returns pb' \<Longrightarrow> pb' = put_block pb p"
  unfolding fill_block_def put_block_def Let_def
  by (rule for_each_foldl[where f = "fill_term (block_name p)"]) (rule fill_term_Returns)

lemma fill_Returns: "for_each fill_block pb ps = Returns pb' \<Longrightarrow> pb' = foldl put_block pb ps"
  by (rule for_each_foldl[where f = fill_block]) (rule fill_block_Returns)

subsection \<open>The overall document counts\<close>

definition doc_step :: "(string \<times> nat) list \<times> string list \<Rightarrow> string \<Rightarrow> (string \<times> nat) list \<times> string list" where
  "doc_step p t = (if t \<in> set (snd p) then p else (bump (fst p) t, snd p @ [t]))"

definition doc_proj :: "RowScan \<Rightarrow> (string \<times> nat) list \<times> string list" where
  "doc_proj sc = (overallDocCounts (tstate sc), seenOverall sc)"

definition entries_terms :: "hitMap \<Rightarrow> string list" where
  "entries_terms ps =
     concat (map (\<lambda>p. concat (map (field_terms (snd p)) [Title, Abstract, Keywords])) ps)"

lemma term_count_doc: "doc_proj (term_count bn f sc t) = doc_step (doc_proj sc) t"
  by (simp add: term_count_def count_term_def doc_proj_def doc_step_def Let_def)

lemma terms_fold_doc: "doc_proj (foldl (term_count bn f) sc ts) = foldl doc_step (doc_proj sc) ts"
  by (induction ts arbitrary: sc) (simp_all add: term_count_doc)

lemma fields_fold_doc:
  "doc_proj (foldl (field_count bn flds) sc fs) =
     foldl doc_step (doc_proj sc) (concat (map (field_terms flds) fs))"
  by (induction fs arbitrary: sc) (simp_all add: field_count_def terms_fold_doc)

lemma block_count_doc:
  "doc_proj (block_count sc p) =
     foldl doc_step (doc_proj sc) (concat (map (field_terms (snd p)) [Title, Abstract, Keywords]))"
proof -
  have "doc_proj (sc\<lparr>tstate := (tstate sc)\<lparr>perBlock := x\<rparr>, seenInBlock := y\<rparr>) = doc_proj sc" for x y
    by (simp add: doc_proj_def)
  then show ?thesis
    unfolding block_count_def fields_fold_doc by simp
qed

lemma blocks_fold_doc:
  "doc_proj (foldl block_count sc ps) = foldl doc_step (doc_proj sc) (entries_terms ps)"
  by (induction ps arbitrary: sc) (simp_all add: block_count_doc entries_terms_def)

lemma get_or_bump: "get_or 0 (bump m k) t = (if t = k then get_or 0 m k + 1 else get_or 0 m t)"
  by (simp add: bump_def get_or_def update_conv')

lemma keys_bump: "fst ` set (bump m k) = insert k (fst ` set m)"
  by (simp add: bump_def dom_update)

lemma doc_fold_count:
  "get_or 0 (fst (foldl doc_step (m, seen) ts)) t =
     get_or 0 m t + (if t \<in> set ts \<and> t \<notin> set seen then 1 else 0)"
  by (induction ts arbitrary: m seen) (auto simp: doc_step_def get_or_bump)

lemma doc_fold_keys:
  "fst ` set (fst (foldl doc_step (m, seen) ts)) = fst ` set m \<union> (set ts - set seen)"
  by (induction ts arbitrary: m seen) (auto simp: doc_step_def keys_bump)

lemma doc_fold_distinct:
  "distinct (map fst m) \<Longrightarrow> distinct (map fst (fst (foldl doc_step (m, seen) ts)))"
  by (induction ts arbitrary: m seen) (auto simp: doc_step_def bump_def distinct_update)

lemma set_entries_terms: "set (entries_terms (obj_entries m)) = set (entries_terms m)"
  by (simp add: entries_terms_def)

lemma row_terms_entries: "row_terms r = entries_terms (MatchedTermsMap r)"
  by (simp add: row_terms_def entries_terms_def)

lemma row_count_doc:
  "overallDocCounts (row_count st r) =
     fst (foldl doc_step (overallDocCounts st, []) (entries_terms (obj_entries (MatchedTermsMap r))))"
proof -
  have "doc_proj (foldl block_count \<lparr>tstate = st, seenOverall = [], seenInBlock = []\<rparr>
          (obj_entries (MatchedTermsMap r)))
      = foldl doc_step (overallDocCounts st, []) (entries_terms (obj_entries (MatchedTermsMap r)))"
    unfolding blocks_fold_doc by (simp add: doc_proj_def)
  then show ?thesis
    by (simp add: row_count_def doc_proj_def prod_eq_iff)
qed

lemma rows_fold_count:
  "get_or 0 (overallDocCounts (foldl row_count st rows)) t =
     get_or 0 (overallDocCounts st) t + doc_frequency rows t"
  by (induction rows arbitrary: st)
     (simp_all add: row_count_doc doc_fold_count doc_frequency_def set_entries_terms
        row_terms_entries)

lemma rows_fold_keys:
  "fst ` set (overallDocCounts (foldl row_count st rows)) =
     fst ` set (overallDocCounts st) \<union> {t. \<exists>r \<in> set rows. t \<in> set (row_terms r)}"
  by (induction rows arbitrary: st)
     (auto simp: row_count_doc doc_fold_keys set_entries_terms row_terms_entries)

lemma rows_fold_distinct:
  "distinct (map fst (overallDocCounts st)) \<Longrightarrow>
     distinct (map fst (overallDocCounts (foldl row_count st rows)))"
  by (induction rows arbitrary: st) (simp_all add: row_count_doc doc_fold_distinct)

lemma map_of_sort_desc:
  assumes "distinct (map fst xs)"
  shows "map_of (sort_desc key xs) = map_of xs"
proof -
  have s: "set (sort_desc key xs) = set xs"
    by (simp add: sort_desc_def)
  from assms have dx: "distinct xs" and inj: "inj_on fst (set xs)"
    by (simp_all add: distinct_map)
  have "distinct (sort_desc key xs)"
    using dx by (simp add: sort_desc_def)
  with inj s have "distinct (map fst (sort_desc key xs))"
    by (simp add: distinct_map)
  with assms s show ?thesis
    by (simp add: map_of_inject_set)
qed

lemma set_sort_desc [simp]: "set (sort_desc key xs) = set xs"
  by (simp add: sort_desc_def)

subsection \<open>The zero fill\<close>

lemma get_or_update: "get_or d (AList.update k v m) k' = (if k' = k then v else get_or d m k')"
  by (simp add: get_or_def update_conv')

lemma look_or_assign_block [simp]: "look (or_assign n [] pb) n' t = look pb n' t"
  by (cases "map_of pb n") (auto simp: look_def get_or_def map_of_or_assign)

lemma look_put_zero:
  "look (put_zero n pb rawterm) n' t =
     (if n' = n \<and> t = trim rawterm \<and> t \<noteq> [] \<and> t \<notin> set proto_names \<and> look pb n' t = None
      then Some zero_stat else look pb n' t)"
proof (cases "trim rawterm = []")
  case True
  then have "put_zero n pb rawterm = pb" by (simp add: put_zero_def)
  moreover from True have "\<not> (t = trim rawterm \<and> t \<noteq> [])" by simp
  ultimately show ?thesis by auto
next
  case False
  then have "put_zero n pb rawterm =
      AList.update n (or_assign (trim rawterm) zero_stat (get_or [] pb n)) pb"
    by (simp add: put_zero_def)
  then show ?thesis
    using False by (auto simp: look_def get_or_update map_of_or_assign)
qed

lemma look_put_terms:
  "look (foldl (put_zero n) pb raws) n' t =
     (if n' = n \<and> t \<in> set (map trim raws) \<and> t \<noteq> [] \<and> t \<notin> set proto_names
         \<and> look pb n' t = None
      then Some zero_stat else look pb n' t)"
proof (induction raws arbitrary: pb)
  case Nil
  show ?case by simp
next
  case (Cons r rs)
  have step: "look (foldl (put_zero n) pb (r # rs)) n' t =
     (if n' = n \<and> t \<in> set (map trim rs) \<and> t \<noteq> [] \<and> t \<notin> set proto_names
         \<and> look (put_zero n pb r) n' t = None
      then Some zero_stat else look (put_zero n pb r) n' t)"
    by (simp only: foldl_Cons Cons.IH)
  show ?case
  proof (cases "n' = n \<and> t \<noteq> [] \<and> t \<notin> set proto_names \<and> look pb n' t = None")
    case False
    then have "look (put_zero n pb r) n' t = look pb n' t"
      by (simp only: look_put_zero) auto
    with False show ?thesis unfolding step by auto
  next
    case True
    show ?thesis
    proof (cases "t = trim r")
      case t: True
      with True have "look (put_zero n pb r) n' t = Some zero_stat"
        by (simp only: look_put_zero) auto
      with True t show ?thesis unfolding step by auto
    next
      case f: False
      with True have "look (put_zero n pb r) n' t = None"
        by (simp only: look_put_zero) auto
      with True f show ?thesis unfolding step by auto
    qed
  qed
qed

lemma look_put_block:
  "look (put_block pb p) n' t =
     (if n' = block_name p \<and> t \<in> set (map trim (terms (snd p))) \<and> t \<noteq> []
         \<and> t \<notin> set proto_names \<and> look pb n' t = None
      then Some zero_stat else look pb n' t)"
  unfolding put_block_def look_put_terms look_or_assign_block by (rule refl)

definition filled_by :: "(nat \<times> Block) list \<Rightarrow> string \<Rightarrow> string \<Rightarrow> bool" where
  "filled_by ps n t =
     list_ex (\<lambda>p. n = block_name p \<and> t \<in> set (map trim (terms (snd p)))) ps"

lemma look_put_blocks:
  "look (foldl put_block pb ps) n' t =
     (if filled_by ps n' t \<and> t \<noteq> [] \<and> t \<notin> set proto_names \<and> look pb n' t = None
      then Some zero_stat else look pb n' t)"
proof (induction ps arbitrary: pb)
  case Nil
  show ?case by (simp add: filled_by_def)
next
  case (Cons p ps)
  have step: "look (foldl put_block pb (p # ps)) n' t =
     (if filled_by ps n' t \<and> t \<noteq> [] \<and> t \<notin> set proto_names \<and> look (put_block pb p) n' t = None
      then Some zero_stat else look (put_block pb p) n' t)"
    by (simp only: foldl_Cons Cons.IH)
  have fb: "filled_by (p # ps) n' t \<longleftrightarrow>
      (n' = block_name p \<and> t \<in> set (map trim (terms (snd p)))) \<or> filled_by ps n' t"
    by (simp add: filled_by_def)
  show ?case
  proof (cases "t \<noteq> [] \<and> t \<notin> set proto_names \<and> look pb n' t = None")
    case False
    then have "look (put_block pb p) n' t = look pb n' t"
      by (simp only: look_put_block) auto
    with False show ?thesis unfolding step by auto
  next
    case True
    show ?thesis
    proof (cases "n' = block_name p \<and> t \<in> set (map trim (terms (snd p)))")
      case t: True
      with True have "look (put_block pb p) n' t = Some zero_stat"
        by (simp only: look_put_block) auto
      with True t show ?thesis unfolding step fb by auto
    next
      case f: False
      with True have "look (put_block pb p) n' t = None"
        by (simp only: look_put_block) auto
      with True f show ?thesis unfolding step fb by auto
    qed
  qed
qed

lemma look_Some_block: "look pb n t = Some s \<Longrightarrow> \<exists>tm. map_of pb n = Some tm \<and> map_of tm t = Some s"
  by (auto simp: look_def get_or_def split: option.splits)

lemma filled_by_enumerate:
  assumes "i < length bs" and "rawterm \<in> set (terms (bs ! i))"
  shows "filled_by (enumerate 0 bs) (block_name (i, bs ! i)) (trim rawterm)"
proof -
  from assms(1) have "(i, bs ! i) \<in> set (enumerate 0 bs)"
    by (simp add: in_set_enumerate_eq)
  with assms(2) show ?thesis
    unfolding filled_by_def list_ex_iff by force
qed

lemma map_of_map_snd:
  "map_of (map (\<lambda>p. (fst p, g (snd p))) xs) k = map_option g (map_of xs k)"
  by (induction xs) auto

subsection \<open>Terms that get no entry in the loop over the rows\<close>

text \<open>
  A term has no entry in any breakdown after the rows when it is the name of an inherited
  member (the loop throws before it would create one) or when no row has it.
\<close>

lemma look_count_term:
  assumes "map_of pb bn = Some tm0" and "perBlock (tstate sc) = pb" and "t \<noteq> t'"
  shows "look (perBlock (tstate (count_term bn f sc tm0 t'))) n t = look pb n t"
  using assms
  by (auto simp: count_term_def Let_def look_def get_or_update get_or_def update_conv'
      map_of_or_assign)

lemma look_None_term_step:
  assumes t: "t \<in> set proto_names \<or> t \<noteq> t'"
    and i: "\<forall>n. look (perBlock (tstate sc)) n t = None"
    and r: "term_step bn f sc t' = Returns sc'"
  shows "\<forall>n. look (perBlock (tstate sc')) n t = None"
proof -
  from r obtain tm0 where m: "map_of (perBlock (tstate sc)) bn = Some tm0"
    and g: "obj_get tm0 t' \<noteq> Inherited" and s: "sc' = count_term bn f sc tm0 t'"
    by (auto simp: term_step_def obj_get_def split: option.splits if_splits lookup.splits)
  have ne: "t \<noteq> t'"
  proof
    assume e: "t = t'"
    with t have p: "t \<in> set proto_names" by simp
    from i m have "map_of tm0 t = None" by (auto simp: look_def get_or_def dest: spec[of _ bn])
    with p e g show False by (simp add: obj_get_def)
  qed
  show ?thesis
    using i by (simp add: s look_count_term[OF m refl ne])
qed

lemma look_None_field_step:
  assumes t: "t \<in> set proto_names \<or> t \<notin> set (field_terms flds f)"
    and i: "\<forall>n. look (perBlock (tstate sc)) n t = None"
    and r: "field_step bn flds sc f = Returns sc'"
  shows "\<forall>n. look (perBlock (tstate sc')) n t = None"
  using i r unfolding field_step_def
proof (rule for_each_inv[where I = "\<lambda>sc::RowScan. \<forall>n. look (perBlock (tstate sc)) n t = None", rotated])
  fix s :: RowScan and x s'
  assume a: "\<forall>n. look (perBlock (tstate s)) n t = None" "x \<in> set (field_terms flds f)"
    "term_step bn f s x = Returns s'"
  from t a(2) have "t \<in> set proto_names \<or> t \<noteq> x" by auto
  from look_None_term_step[OF this a(1) a(3)]
  show "\<forall>n. look (perBlock (tstate s')) n t = None" .
qed

lemma look_None_block_step:
  assumes t: "t \<in> set proto_names \<or> (\<forall>f. t \<notin> set (field_terms (snd p) f))"
    and i: "\<forall>n. look (perBlock (tstate sc)) n t = None"
    and r: "block_step sc p = Returns sc'"
  shows "\<forall>n. look (perBlock (tstate sc')) n t = None"
proof -
  let ?sc1 = "sc\<lparr>tstate := (tstate sc)\<lparr>perBlock := or_assign (fst p) [] (perBlock (tstate sc))\<rparr>,
                 seenInBlock := ensure (fst p) [] (seenInBlock sc)\<rparr>"
  have i1: "\<forall>n. look (perBlock (tstate ?sc1)) n t = None"
    using i by simp
  from r have r1: "for_each (field_step (fst p) (snd p)) ?sc1 [Title, Abstract, Keywords]
      = Returns sc'"
    by (simp add: block_step_def Let_def)
  show ?thesis
    using i1 r1
  proof (rule for_each_inv[where I = "\<lambda>sc::RowScan. \<forall>n. look (perBlock (tstate sc)) n t = None", rotated])
    fix s :: RowScan and x s'
    assume a: "\<forall>n. look (perBlock (tstate s)) n t = None"
      "field_step (fst p) (snd p) s x = Returns s'"
    from t have "t \<in> set proto_names \<or> t \<notin> set (field_terms (snd p) x)" by auto
    from look_None_field_step[OF this a(1) a(2)]
    show "\<forall>n. look (perBlock (tstate s')) n t = None" .
  qed
qed

lemma row_terms_entry:
  assumes "t \<notin> set (row_terms r)" and "p \<in> set (MatchedTermsMap r)"
  shows "t \<notin> set (field_terms (snd p) f)"
proof
  assume a: "t \<in> set (field_terms (snd p) f)"
  have "f \<in> set [Title, Abstract, Keywords]" by (cases f) simp_all
  with a assms(2) have "t \<in> set (row_terms r)"
    unfolding row_terms_def by (auto intro!: bexI[of _ p] bexI[of _ f])
  with assms(1) show False by simp
qed

lemma look_None_row_step:
  assumes t: "t \<in> set proto_names \<or> t \<notin> set (row_terms r)"
    and i: "\<forall>n. look (perBlock st) n t = None"
    and r: "row_step st r = Returns st'"
  shows "\<forall>n. look (perBlock st') n t = None"
proof -
  let ?sc0 = "\<lparr>tstate = st, seenOverall = [], seenInBlock = []\<rparr>"
  from r obtain sc where
    b: "for_each block_step ?sc0 (obj_entries (MatchedTermsMap r)) = Returns sc"
    and c: "st' = tstate sc"
    by (auto simp: row_step_def split: outcome.splits)
  have i0: "\<forall>n. look (perBlock (tstate ?sc0)) n t = None" using i by simp
  have "\<forall>n. look (perBlock (tstate sc)) n t = None"
    using i0 b
  proof (rule for_each_inv[where I = "\<lambda>sc::RowScan. \<forall>n. look (perBlock (tstate sc)) n t = None", rotated])
    fix s :: RowScan and x s'
    assume a: "\<forall>n. look (perBlock (tstate s)) n t = None"
      "x \<in> set (obj_entries (MatchedTermsMap r))" "block_step s x = Returns s'"
    from a(2) have x: "x \<in> set (MatchedTermsMap r)" by simp
    from t have "t \<in> set proto_names \<or> (\<forall>f. t \<notin> set (field_terms (snd x) f))"
      using row_terms_entry[OF _ x] by blast
    from look_None_block_step[OF this a(1) a(3)]
    show "\<forall>n. look (perBlock (tstate s')) n t = None" .
  qed
  then show ?thesis by (simp add: c)
qed

lemma look_None_rows:
  assumes t: "t \<in> set proto_names \<or> (\<forall>r \<in> set rows. t \<notin> set (row_terms r))"
    and i: "\<forall>n. look (perBlock st) n t = None"
    and r: "for_each row_step st rows = Returns st'"
  shows "\<forall>n. look (perBlock st') n t = None"
  using i r
proof (rule for_each_inv[where I = "\<lambda>st::TSState. \<forall>n. look (perBlock st) n t = None", rotated])
  fix s :: TSState and x s'
  assume a: "\<forall>n. look (perBlock s) n t = None" "x \<in> set rows" "row_step s x = Returns s'"
  from t a(2) have "t \<in> set proto_names \<or> t \<notin> set (row_terms x)" by auto
  from look_None_row_step[OF this a(1) a(3)]
  show "\<forall>n. look (perBlock s') n t = None" .
qed

subsection \<open>The keys of the breakdown stay distinct\<close>

lemma foldl_inv:
  assumes "\<And>s x. I s \<Longrightarrow> I (g s x)"
  shows "I s \<Longrightarrow> I (foldl g s xs)"
  by (induction xs arbitrary: s) (simp_all add: assms)

lemma distinct_term_count:
  "distinct (map fst (perBlock (tstate sc))) \<Longrightarrow>
     distinct (map fst (perBlock (tstate (term_count bn f sc t))))"
  by (simp add: term_count_def count_term_def Let_def distinct_update)

lemma distinct_field_count:
  "distinct (map fst (perBlock (tstate sc))) \<Longrightarrow>
     distinct (map fst (perBlock (tstate (field_count bn flds sc f))))"
  unfolding field_count_def
  by (rule foldl_inv[where I = "\<lambda>sc::RowScan. distinct (map fst (perBlock (tstate sc)))"])
     (rule distinct_term_count)

lemma distinct_block_count:
  assumes "distinct (map fst (perBlock (tstate sc)))"
  shows "distinct (map fst (perBlock (tstate (block_count sc p))))"
  unfolding block_count_def
proof (rule foldl_inv[where I = "\<lambda>sc::RowScan. distinct (map fst (perBlock (tstate sc)))"])
  show "distinct (map fst (perBlock (tstate
      (sc\<lparr>tstate := (tstate sc)\<lparr>perBlock := or_assign (fst p) [] (perBlock (tstate sc))\<rparr>,
          seenInBlock := ensure (fst p) [] (seenInBlock sc)\<rparr>))))"
    using assms by (simp add: distinct_or_assign)
qed (rule distinct_field_count)

lemma distinct_row_count:
  assumes "distinct (map fst (perBlock st))"
  shows "distinct (map fst (perBlock (row_count st r)))"
  unfolding row_count_def
proof (rule foldl_inv[where I = "\<lambda>sc::RowScan. distinct (map fst (perBlock (tstate sc)))"])
  show "distinct (map fst (perBlock (tstate \<lparr>tstate = st, seenOverall = [], seenInBlock = []\<rparr>)))"
    using assms by simp
qed (rule distinct_block_count)

lemma distinct_rows_count:
  "distinct (map fst (perBlock st)) \<Longrightarrow> distinct (map fst (perBlock (foldl row_count st rows)))"
  by (rule foldl_inv[where I = "\<lambda>st::TSState. distinct (map fst (perBlock st))"])
     (rule distinct_row_count)

lemma distinct_put_zero: "distinct (map fst pb) \<Longrightarrow> distinct (map fst (put_zero n pb rawterm))"
  by (simp add: put_zero_def distinct_update)

lemma distinct_put_block: "distinct (map fst pb) \<Longrightarrow> distinct (map fst (put_block pb p))"
  unfolding put_block_def
  by (rule foldl_inv[where I = "\<lambda>pb::(string \<times> termMap) list. distinct (map fst pb)"])
     (simp_all add: distinct_put_zero distinct_or_assign)

lemma distinct_put_blocks:
  "distinct (map fst pb) \<Longrightarrow> distinct (map fst (foldl put_block pb ps))"
  by (rule foldl_inv[where I = "\<lambda>pb::(string \<times> termMap) list. distinct (map fst pb)"]) (rule distinct_put_block)

subsection \<open>When the aggregator returns\<close>

definition plain_row :: "Row \<Rightarrow> bool" where
  "plain_row r =
     (list_all (\<lambda>p. fst p \<notin> set proto_names) (MatchedTermsMap r)
      \<and> list_all (\<lambda>t. t \<notin> set proto_names) (row_terms r))"

definition plain_blocks :: "QueryConfig \<Rightarrow> bool" where
  "plain_blocks cfg = list_all (\<lambda>p. block_name p \<notin> set proto_names) (enumerate 0 (blocks cfg))"

lemma own_count_term:
  "map_of (perBlock (tstate sc)) bn \<noteq> None \<Longrightarrow>
     map_of (perBlock (tstate (count_term bn f sc tm0 t))) bn \<noteq> None"
  by (simp add: count_term_def Let_def update_conv')

lemma term_step_plain:
  assumes "map_of (perBlock (tstate sc)) bn \<noteq> None" and "t \<notin> set proto_names"
  shows "\<exists>sc'. term_step bn f sc t = Returns sc' \<and> map_of (perBlock (tstate sc')) bn \<noteq> None"
proof -
  from assms(1) obtain tm0 where m: "map_of (perBlock (tstate sc)) bn = Some tm0" by auto
  have "term_step bn f sc t = Returns (count_term bn f sc tm0 t)"
    using m assms(2) by (simp add: term_step_def obj_get_def split: option.splits)
  with own_count_term[OF assms(1)] show ?thesis by simp
qed

lemma field_step_plain:
  assumes "map_of (perBlock (tstate sc)) bn \<noteq> None"
    and "\<forall>t \<in> set (field_terms flds f). t \<notin> set proto_names"
  shows "\<exists>sc'. field_step bn flds sc f = Returns sc' \<and> map_of (perBlock (tstate sc')) bn \<noteq> None"
  unfolding field_step_def
proof (rule for_each_Returns[where I = "\<lambda>sc::RowScan. map_of (perBlock (tstate sc)) bn \<noteq> None"])
  fix s :: RowScan and x assume "map_of (perBlock (tstate s)) bn \<noteq> None" "x \<in> set (field_terms flds f)"
  with assms(2) have "map_of (perBlock (tstate s)) bn \<noteq> None" "x \<notin> set proto_names" by auto
  then show "\<exists>s'. term_step bn f s x = Returns s' \<and> map_of (perBlock (tstate s')) bn \<noteq> None"
    by (rule term_step_plain)
qed (rule assms(1))

lemma block_step_plain:
  assumes "fst p \<notin> set proto_names"
    and "\<forall>f. \<forall>t \<in> set (field_terms (snd p) f). t \<notin> set proto_names"
  shows "\<exists>sc'. block_step sc p = Returns sc'"
proof -
  let ?sc1 = "sc\<lparr>tstate := (tstate sc)\<lparr>perBlock := or_assign (fst p) [] (perBlock (tstate sc))\<rparr>,
                 seenInBlock := ensure (fst p) [] (seenInBlock sc)\<rparr>"
  have own: "map_of (perBlock (tstate ?sc1)) (fst p) \<noteq> None"
    using assms(1) by (simp add: map_of_or_assign)
  have "\<exists>sc'. for_each (field_step (fst p) (snd p)) ?sc1 [Title, Abstract, Keywords] = Returns sc'
      \<and> map_of (perBlock (tstate sc')) (fst p) \<noteq> None"
  proof (rule for_each_Returns[where I = "\<lambda>sc::RowScan. map_of (perBlock (tstate sc)) (fst p) \<noteq> None"])
    fix s :: RowScan and x assume "map_of (perBlock (tstate s)) (fst p) \<noteq> None"
    moreover from assms(2) have "\<forall>t \<in> set (field_terms (snd p) x). t \<notin> set proto_names"
      by blast
    ultimately show "\<exists>s'. field_step (fst p) (snd p) s x = Returns s'
        \<and> map_of (perBlock (tstate s')) (fst p) \<noteq> None"
      by (rule field_step_plain)
  qed (rule own)
  then show ?thesis by (auto simp: block_step_def Let_def)
qed

lemma plain_row_entry:
  assumes "plain_row r" and "p \<in> set (MatchedTermsMap r)"
  shows "fst p \<notin> set proto_names"
    and "\<forall>f. \<forall>t \<in> set (field_terms (snd p) f). t \<notin> set proto_names"
proof -
  from assms show "fst p \<notin> set proto_names"
    by (auto simp: plain_row_def list_all_iff)
  show "\<forall>f. \<forall>t \<in> set (field_terms (snd p) f). t \<notin> set proto_names"
  proof (intro allI ballI)
    fix f t assume t: "t \<in> set (field_terms (snd p) f)"
    have "f \<in> set [Title, Abstract, Keywords]" by (cases f) simp_all
    with t assms(2) have "t \<in> set (row_terms r)"
      unfolding row_terms_def by (auto intro!: bexI[of _ p] bexI[of _ f])
    with assms(1) show "t \<notin> set proto_names"
      by (auto simp: plain_row_def list_all_iff)
  qed
qed

lemma row_step_plain:
  assumes "plain_row r"
  shows "\<exists>st'. row_step st r = Returns st'"
proof -
  have "\<exists>sc'. for_each block_step \<lparr>tstate = st, seenOverall = [], seenInBlock = []\<rparr>
          (obj_entries (MatchedTermsMap r)) = Returns sc' \<and> True"
  proof (rule for_each_Returns[where I = "\<lambda>sc::RowScan. True"])
    fix s :: RowScan and x assume "x \<in> set (obj_entries (MatchedTermsMap r))"
    then have x: "x \<in> set (MatchedTermsMap r)" by simp
    from block_step_plain[OF plain_row_entry[OF assms x]]
    show "\<exists>s'. block_step s x = Returns s' \<and> True" by simp
  qed simp
  then show ?thesis by (auto simp: row_step_def)
qed

lemma rows_plain:
  assumes "\<forall>r \<in> set rows. plain_row r"
  shows "\<exists>st'. for_each row_step st rows = Returns st'"
proof -
  have "\<exists>st'. for_each row_step st rows = Returns st' \<and> True"
  proof (rule for_each_Returns[where I = "\<lambda>st::TSState. True"])
    fix s :: TSState and x assume "x \<in> set rows"
    with assms row_step_plain[of x s] show "\<exists>s'. row_step s x = Returns s' \<and> True" by simp
  qed simp
  then show ?thesis by simp
qed

lemma fill_term_plain:
  assumes "map_of pb n \<noteq> None"
  shows "\<exists>pb'. fill_term n pb rawterm = Returns pb' \<and> map_of pb' n \<noteq> None"
  using assms by (auto simp: fill_term_def Let_def obj_get_def update_conv')

lemma fill_block_plain:
  assumes "block_name p \<notin> set proto_names"
  shows "\<exists>pb'. fill_block pb p = Returns pb'"
proof -
  have own: "map_of (or_assign (block_name p) [] pb) (block_name p) \<noteq> None"
    using assms by (simp add: map_of_or_assign)
  have "\<exists>pb'. for_each (fill_term (block_name p)) (or_assign (block_name p) [] pb) (terms (snd p))
      = Returns pb' \<and> map_of pb' (block_name p) \<noteq> None"
  proof (rule for_each_Returns[where I = "\<lambda>pb::(string \<times> termMap) list. map_of pb (block_name p) \<noteq> None"])
    fix s :: "(string \<times> termMap) list" and x assume "map_of s (block_name p) \<noteq> None"
    then show "\<exists>s'. fill_term (block_name p) s x = Returns s' \<and> map_of s' (block_name p) \<noteq> None"
      by (rule fill_term_plain)
  qed (rule own)
  then show ?thesis by (auto simp: fill_block_def Let_def)
qed

lemma fill_plain:
  assumes "\<forall>p \<in> set ps. block_name p \<notin> set proto_names"
  shows "\<exists>pb'. for_each fill_block pb ps = Returns pb'"
proof -
  have "\<exists>pb'. for_each fill_block pb ps = Returns pb' \<and> True"
  proof (rule for_each_Returns[where I = "\<lambda>pb::(string \<times> termMap) list. True"])
    fix s :: "(string \<times> termMap) list" and x assume "x \<in> set ps"
    with assms fill_block_plain[of x s] show "\<exists>s'. fill_block s x = Returns s' \<and> True" by simp
  qed simp
  then show ?thesis by simp
qed

lemma computeTermStats_plain:
  assumes "\<forall>r \<in> set rows. plain_row r" and "plain_blocks cfg"
  shows "\<exists>ts. computeTermStats cfg rows = Returns ts"
proof -
  let ?init = "\<lparr>overallDocCounts = [],
        overallFieldCounts = \<lparr>f_title = [], f_abstract = [], f_keywords = []\<rparr>,
        perBlock = []\<rparr>"
  from rows_plain[OF assms(1)] obtain st where st: "for_each row_step ?init rows = Returns st"
    by blast
  from assms(2) have "\<forall>p \<in> set (enumerate 0 (blocks cfg)). block_name p \<notin> set proto_names"
    by (simp add: plain_blocks_def list_all_iff)
  from fill_plain[OF this] obtain pb where
    pb: "for_each fill_block (perBlock st) (enumerate 0 (blocks cfg)) = Returns pb"
    by blast
  show ?thesis by (simp add: computeTermStats_def st pb)
qed

lemma computeTermStats_Returns:
  assumes "computeTermStats cfg rows = Returns ts"
  obtains st pb where
    "for_each row_step
       \<lparr>overallDocCounts = [],
        overallFieldCounts = \<lparr>f_title = [], f_abstract = [], f_keywords = []\<rparr>,
        perBlock = []\<rparr> rows = Returns st"
    and "for_each fill_block (perBlock st) (enumerate 0 (blocks cfg)) = Returns pb"
    and "ts = \<lparr>totalMatchedStudies = length rows,
               overallTop = sort_desc snd (overallDocCounts st),
               topByBlock =
                 map (\<lambda>p. (fst p, sort_desc (\<lambda>q. docCount (snd q)) (obj_entries (snd p))))
                   (obj_entries pb),
               ts_perBlock = pb,
               ts_overallFieldCounts = overallFieldCounts st\<rparr>"
  using assms by (auto simp: computeTermStats_def split: outcome.splits)

section \<open>The run, characterised\<close>

lemma set_update_subset: "set (AList.update k v m) \<subseteq> insert (k, v) (set m)"
  by (induction m) auto

lemma record_hits_entries:
  "(n, pfh) \<in> set (foldl (record_hit eng texts) det cs) \<Longrightarrow>
     (n, pfh) \<in> set det \<or> (\<exists>c \<in> set cs. n = cname c \<and> pfh = perFieldHits_of eng c texts)"
proof (induction cs arbitrary: det)
  case Nil
  then show ?case by simp
next
  case (Cons a cs)
  from Cons.IH[of "record_hit eng texts det a"] Cons.prems
  have "(n, pfh) \<in> set (record_hit eng texts det a)
      \<or> (\<exists>c \<in> set cs. n = cname c \<and> pfh = perFieldHits_of eng c texts)"
    by simp
  moreover have "set (record_hit eng texts det a)
      \<subseteq> insert (cname a, perFieldHits_of eng a texts) (set det)"
    using set_update_subset[of "cname a" "perFieldHits_of eng a texts" det]
    by (auto simp: record_hit_def obj_set_def)
  ultimately show ?case by auto
qed

lemma detailed_entries:
  assumes "(n, pfh) \<in> set (detailed (matchesByFields eng cfg flds sel))"
  shows "\<exists>c \<in> set (compile eng cfg). n = cname c \<and> pfh = perFieldHits_of eng c (texts_of flds sel)"
proof (cases "compile eng cfg")
  case Nil
  with assms show ?thesis by (simp add: matchesByFields_empty)
next
  case (Cons d ds)
  from assms have "(n, pfh) \<in> set (foldl (record_hit eng (texts_of flds sel)) []
      (d # take (length (operators cfg)) ds))"
    by (simp add: matchesByFields_nonempty[OF Cons])
  from record_hits_entries[OF this] obtain c where
    c: "c \<in> set (d # take (length (operators cfg)) ds)" "n = cname c"
       "pfh = perFieldHits_of eng c (texts_of flds sel)"
    by auto
  from c(1) have "c \<in> set (compile eng cfg)"
    unfolding Cons by (auto dest: in_set_takeD)
  with c show ?thesis by blast
qed

lemma hit_terms_configured:
  "t \<in> set (field_terms (perFieldHits_of eng c texts) f) \<Longrightarrow> t \<in> set (cterms c)"
  by (cases f)
     (auto simp: field_terms_def get_or_def perFieldHits_of_def field_hits_def Let_def
        split: if_splits dest: set_zip_rightD)

lemma in_set_map_filter: "y \<in> set (List.map_filter f xs) \<longleftrightarrow> (\<exists>x \<in> set xs. f x = Some y)"
  by (induction xs) (auto split: option.splits)

lemma compiled_block:
  assumes "c \<in> set (compile eng cfg)"
  shows "\<exists>p \<in> set (enumerate 0 (blocks cfg)).
           cname c = block_name p \<and> set (cterms c) \<subseteq> set (terms (snd p))"
proof -
  from assms obtain p where p: "p \<in> set (enumerate 0 (blocks cfg))"
    and c: "compile_block eng (if caseInsensitive cfg then ''i'' else '''') p = Some c"
    by (auto simp: compile_def in_set_map_filter)
  from c have "cname c = block_name p \<and> set (cterms c) \<subseteq> set (terms (snd p))"
    by (auto simp: compile_block_def block_name_def Let_def split: if_splits)
  with p show ?thesis by blast
qed

lemma plain_names_blocks: "plain_names cfg \<Longrightarrow> plain_blocks cfg"
  by (simp add: plain_names_def plain_blocks_def list_all_iff)

lemma plain_detailed:
  assumes "plain_names cfg" and "(n, pfh) \<in> set (detailed (matchesByFields eng cfg flds sel))"
  shows "n \<notin> set proto_names"
    and "\<forall>f. \<forall>t \<in> set (field_terms pfh f). t \<notin> set proto_names"
proof -
  from detailed_entries[OF assms(2)] obtain c where
    c: "c \<in> set (compile eng cfg)" "n = cname c" "pfh = perFieldHits_of eng c (texts_of flds sel)"
    by blast
  from compiled_block[OF c(1)] obtain p where
    p: "p \<in> set (enumerate 0 (blocks cfg))" "cname c = block_name p"
       "set (cterms c) \<subseteq> set (terms (snd p))"
    by blast
  from assms(1) p(1) have pl: "block_name p \<notin> set proto_names"
      "\<forall>t \<in> set (terms (snd p)). t \<notin> set proto_names"
    by (auto simp: plain_names_def list_all_iff)
  from pl(1) c(2) p(2) show "n \<notin> set proto_names" by simp
  show "\<forall>f. \<forall>t \<in> set (field_terms pfh f). t \<notin> set proto_names"
    using hit_terms_configured[of _ eng c "texts_of flds sel"] c(3) p(3) pl(2) by blast
qed

lemma plain_matched_row:
  assumes "plain_names cfg"
  shows "plain_row (matched_row e t (matchesByFields eng cfg flds sel))"
proof -
  have m: "MatchedTermsMap (matched_row e t (matchesByFields eng cfg flds sel))
      = detailed (matchesByFields eng cfg flds sel)"
    by (simp add: matched_row_def base_row_def)
  show ?thesis
    unfolding plain_row_def m row_terms_def list_all_iff
    using plain_detailed[OF assms, of _ _ eng flds sel]
    by (auto simp: m)
qed

lemma run_entries_plain:
  assumes "plain_names cfg"
  shows "\<exists>out. run_entries eng cfg entries = Returns out"
proof -
  let ?st = "foldl (run_step eng cfg)
      \<lparr>eligible = 0, matchedRows = [], partialRows = [], unmatchedRows = []\<rparr> entries"
  have "\<forall>r \<in> set (matchedRows ?st). plain_row r"
    by (auto simp: run_loop_char evaluate_def plain_matched_row[OF assms])
  from computeTermStats_plain[OF this plain_names_blocks[OF assms]]
  obtain ts where "computeTermStats cfg (matchedRows ?st) = Returns ts" by blast
  then show ?thesis by (simp add: run_entries_def Let_def)
qed

lemma run_entries_Returns:
  assumes "run_entries eng cfg entries = Returns out"
  shows "o_matched out =
           map (\<lambda>e. matched_row e (record_texts e) (evaluate eng cfg e))
             (filter (\<lambda>e. outcome eng cfg e = Matched) entries)"
    and "o_partial out =
           map (\<lambda>e. partial_row cfg e (record_texts e) (evaluate eng cfg e))
             (filter (\<lambda>e. outcome eng cfg e = Partial) entries)"
    and "o_unmatched out =
           map (\<lambda>e. unmatched_row e (record_texts e) (evaluate eng cfg e))
             (filter (\<lambda>e. outcome eng cfg e = Unmatched) entries)"
    and "report out =
           \<lparr>r_total = length entries,
            r_eligible = length (filter (is_eligible cfg) entries),
            r_matched = length (filter (\<lambda>e. outcome eng cfg e = Matched) entries),
            r_partial = length (filter (\<lambda>e. outcome eng cfg e = Partial) entries),
            r_unmatched = length (filter (\<lambda>e. outcome eng cfg e = Unmatched) entries)\<rparr>"
    and "computeTermStats cfg (o_matched out) = Returns (termStats out)"
  using assms
  by (auto simp: run_entries_def Let_def run_loop_char split: outcome.splits)

subsection \<open>Example runs\<close>

definition mk_entry :: "string \<Rightarrow> (string \<times> string) list \<Rightarrow> Entry" where
  "mk_entry k fs = \<lparr>entry_type = ''article'', citekey = k, efields = fs, raw = []\<rparr>"

definition cfg_run :: QueryConfig where
  "cfg_run = mk_cfg [mk_block ''A'' [''vr''] False, mk_block ''N'' [''old''] True] [AND]"

definition ex_entries :: "Entry list" where
  "ex_entries =
     [mk_entry ''k1'' [(''title'', ''vr'')],
      mk_entry ''k2'' [(''abs'', ''old vr'')],
      mk_entry ''k3'' [(''title'', ''tv'')],
      mk_entry ''k4'' [(''year'', ''2020'')]]"

definition cfg_ctor :: QueryConfig where
  "cfg_ctor = mk_cfg [mk_block ''A'' [''constructor''] False] []"

definition ex_ctor_entry :: Entry where
  "ex_ctor_entry = mk_entry ''k1'' [(''title'', ''constructor'')]"

definition ex_row :: Row where
  "ex_row =
     \<lparr>CiteKey = ''k1'', TitleRaw = ''vr at home'', AbstractRaw = ''a vr study'', KeywordsRaw = [],
      MatchedTermsMap = [(''A'', [(Title, [''vr'']), (Abstract, [''vr''])])],
      MatchedBlocks = Some ''A'', PartialBlocks = None, MissingBlocks = None\<rparr>"

definition cfg_vr :: QueryConfig where
  "cfg_vr = mk_cfg [mk_block ''A'' [''vr'', '' lab '', ''constructor''] False] []"

section \<open>SpanHighlighter\<close>

record Span =
  s_start :: nat
  s_end :: nat
  s_block :: string
  s_text :: string

text \<open>
  \<^verbatim>\<open>rx.exec(text)\<close> of a regular expression with the global flag is a parameter too: from
  the source, the flags, the text and \<^verbatim>\<open>lastIndex\<close> it gives the index and the length of
  the match \<^verbatim>\<open>m[0]\<close>, or nothing. ECMAScript fixes that \<^verbatim>\<open>exec\<close> fails when
  \<^verbatim>\<open>lastIndex\<close> is beyond the end of the text and that a match lies at or after
  \<^verbatim>\<open>lastIndex\<close>, inside the text; \<open>exec_g\<close> reads the parameter under that contract.
  After a match \<^verbatim>\<open>lastIndex\<close> is the end of the match.
\<close>

type_synonym exec_fn = "string \<Rightarrow> string \<Rightarrow> string \<Rightarrow> nat \<Rightarrow> (nat \<times> nat) option"

definition exec_g :: "exec_fn \<Rightarrow> RegExp \<Rightarrow> string \<Rightarrow> nat \<Rightarrow> (nat \<times> nat) option" where
  "exec_g ex rx text li =
     (if length text < li then None
      else (case ex (source rx) (flags rx) text li of
              None \<Rightarrow> None
            | Some m \<Rightarrow> if li \<le> fst m \<and> fst m + snd m \<le> length text then Some m else None))"

function exec_loop :: "exec_fn \<Rightarrow> RegExp \<Rightarrow> string \<Rightarrow> string \<Rightarrow> nat \<Rightarrow> Span list" where
  "exec_loop ex rx blk text li =
     (case exec_g ex rx text li of
        None \<Rightarrow> []
      | Some m \<Rightarrow>
          \<lparr>s_start = fst m, s_end = fst m + snd m, s_block = blk,
           s_text = take (snd m) (drop (fst m) text)\<rparr>
          # exec_loop ex rx blk text (if snd m = 0 then fst m + snd m + 1 else fst m + snd m))"
  by pat_completeness auto
termination
proof (relation "measure (\<lambda>(ex, rx, blk, text, li). Suc (length text) - li)")
  show "wf (measure (\<lambda>(ex, rx, blk, text, li). Suc (length text) - li))" by simp
next
  fix ex :: exec_fn and rx :: RegExp and blk tx :: string and li :: nat and m :: "nat \<times> nat"
  assume "exec_g ex rx tx li = Some m"
  then have "li \<le> fst m" "fst m + snd m \<le> length tx" "li \<le> length tx"
    by (auto simp: exec_g_def split: if_splits option.splits)
  then show "((ex, rx, blk, tx, if snd m = 0 then fst m + snd m + 1 else fst m + snd m),
              (ex, rx, blk, tx, li))
      \<in> measure (\<lambda>(ex, rx, blk, text, li). Suc (length text) - li)"
    by auto
qed

declare exec_loop.simps [simp del]

definition with_g :: "RegExp \<Rightarrow> RegExp" where
  "with_g re = \<lparr>source = source re,
                flags = (if CHR ''g'' \<in> set (flags re) then flags re else flags re @ ''g'')\<rparr>"

definition collected :: "exec_fn \<Rightarrow> string \<Rightarrow> (string \<times> RegExp) list \<Rightarrow> Span list" where
  "collected ex text arr = concat (map (\<lambda>p. exec_loop ex (with_g (snd p)) (fst p) text 0) arr)"

text \<open>The comparator \<^verbatim>\<open>a.start - b.start || b.end - b.start - (a.end - a.start)\<close>.\<close>

definition span_cmp :: "Span \<Rightarrow> Span \<Rightarrow> int" where
  "span_cmp a b =
     (if int (s_start a) - int (s_start b) \<noteq> 0 then int (s_start a) - int (s_start b)
      else int (s_end b) - int (s_start b) - (int (s_end a) - int (s_start a)))"

text \<open>\<^verbatim>\<open>Array.prototype.sort\<close> is stable: insertion from the right keeps equal spans in order.\<close>

fun insert_span :: "Span \<Rightarrow> Span list \<Rightarrow> Span list" where
  "insert_span x [] = [x]"
| "insert_span x (y # ys) = (if span_cmp x y \<le> 0 then x # y # ys else y # insert_span x ys)"

definition sort_spans :: "Span list \<Rightarrow> Span list" where
  "sort_spans xs = foldr insert_span xs []"

fun pick_loop :: "Span list \<Rightarrow> int \<Rightarrow> Span list \<Rightarrow> Span list" where
  "pick_loop [] lastEnd picked = picked"
| "pick_loop (s # ss) lastEnd picked =
     (if lastEnd \<le> int (s_start s) then pick_loop ss (int (s_end s)) (picked @ [s])
      else pick_loop ss lastEnd picked)"

definition collectSpans :: "exec_fn \<Rightarrow> string \<Rightarrow> (string \<times> RegExp) list \<Rightarrow> Span list" where
  "collectSpans ex text arr = pick_loop (sort_spans (collected ex text arr)) (- 1) []"

subsection \<open>The selection in the words of the specification\<close>

definition span_le :: "Span \<Rightarrow> Span \<Rightarrow> bool" where
  "span_le a b =
     (s_start a < s_start b
      \<or> (s_start a = s_start b \<and> s_end b - s_start b \<le> s_end a - s_start a))"

fun greedy_keep :: "Span option \<Rightarrow> Span list \<Rightarrow> Span list" where
  "greedy_keep prev [] = []"
| "greedy_keep prev (s # ss) =
     (if (case prev of None \<Rightarrow> True | Some p \<Rightarrow> s_end p \<le> s_start s)
      then s # greedy_keep (Some s) ss else greedy_keep prev ss)"

text \<open>A literal engine for concrete inputs: the pattern is plain text, found as it is.\<close>

definition lit_exec :: exec_fn where
  "lit_exec src fl text li =
     (case filter (\<lambda>i. take (length src) (drop i text) = src) [li..<Suc (length text)] of
        [] \<Rightarrow> None
      | i # r \<Rightarrow> Some (i, length src))"

definition ex_arr :: "(string \<times> RegExp) list" where
  "ex_arr = [(''B'', \<lparr>source = ''reality'', flags = ''g''\<rparr>),
             (''C'', \<lparr>source = ''virtual'', flags = ''gi''\<rparr>),
             (''D'', \<lparr>source = ''real'', flags = ''''\<rparr>)]"

section \<open>The highlighter's loops, characterised\<close>

lemma exec_loop_wf: "\<forall>s \<in> set (exec_loop ex rx blk tx li). s_start s \<le> s_end s"
proof (induction ex rx blk tx li rule: exec_loop.induct)
  case (1 ex rx blk tx li)
  show ?case
  proof (cases "exec_g ex rx tx li")
    case None
    then show ?thesis by (subst exec_loop.simps) simp
  next
    case (Some m)
    with "1.IH"[OF Some] show ?thesis
      by (subst exec_loop.simps) simp
  qed
qed

lemma collected_wf: "\<forall>s \<in> set (collected ex text arr). s_start s \<le> s_end s"
  using exec_loop_wf by (auto simp: collected_def)

lemma span_cmp_le:
  "s_start a \<le> s_end a \<Longrightarrow> s_start b \<le> s_end b \<Longrightarrow> span_cmp a b \<le> 0 \<longleftrightarrow> span_le a b"
  by (auto simp: span_cmp_def span_le_def)

lemma span_cmp_total: "span_cmp a b \<le> 0 \<or> span_cmp b a \<le> 0"
  by (auto simp: span_cmp_def)

lemma span_cmp_trans: "span_cmp a b \<le> 0 \<Longrightarrow> span_cmp b c \<le> 0 \<Longrightarrow> span_cmp a c \<le> 0"
  by (auto simp: span_cmp_def split: if_splits)

lemma mset_insert_span: "mset (insert_span x ys) = add_mset x (mset ys)"
  by (induction ys) auto

lemma mset_sort_spans: "mset (sort_spans xs) = mset xs"
  by (induction xs) (simp_all add: sort_spans_def mset_insert_span)

lemma set_insert_span: "set (insert_span x ys) = insert x (set ys)"
  by (induction ys) auto

lemma sorted_insert_span:
  "sorted_wrt (\<lambda>a b. span_cmp a b \<le> 0) ys \<Longrightarrow>
     sorted_wrt (\<lambda>a b. span_cmp a b \<le> 0) (insert_span x ys)"
proof (induction ys)
  case Nil
  show ?case by simp
next
  case (Cons y ys)
  show ?case
  proof (cases "span_cmp x y \<le> 0")
    case True
    with Cons.prems show ?thesis
      by (auto intro: span_cmp_trans)
  next
    case False
    with span_cmp_total[of x y] have "span_cmp y x \<le> 0" by simp
    with False Cons show ?thesis
      by (auto simp: set_insert_span)
  qed
qed

lemma sorted_sort_spans: "sorted_wrt (\<lambda>a b. span_cmp a b \<le> 0) (sort_spans xs)"
  by (induction xs) (simp_all add: sort_spans_def sorted_insert_span)

lemma set_sort_spans: "set (sort_spans xs) = set xs"
  by (metis mset_sort_spans set_mset_mset)

lemma sorted_sort_spans_le:
  assumes "\<forall>s \<in> set xs. s_start s \<le> s_end s"
  shows "sorted_wrt span_le (sort_spans xs)"
proof -
  have "\<forall>s \<in> set (sort_spans xs). s_start s \<le> s_end s"
    using assms by (simp add: set_sort_spans)
  then have "\<And>a b. a \<in> set (sort_spans xs) \<Longrightarrow> b \<in> set (sort_spans xs) \<Longrightarrow>
      span_cmp a b \<le> 0 \<Longrightarrow> span_le a b"
    by (simp add: span_cmp_le)
  then show ?thesis
    by (rule sorted_wrt_mono_rel[OF _ sorted_sort_spans])
qed

lemma pick_loop_greedy:
  "(case prev of None \<Rightarrow> lastEnd = - 1 | Some p \<Rightarrow> lastEnd = int (s_end p)) \<Longrightarrow>
     pick_loop ss lastEnd picked = picked @ greedy_keep prev ss"
proof (induction ss arbitrary: prev lastEnd picked)
  case Nil
  show ?case by simp
next
  case (Cons s ss)
  have c: "(lastEnd \<le> int (s_start s)) =
      (case prev of None \<Rightarrow> True | Some p \<Rightarrow> s_end p \<le> s_start s)"
    using Cons.prems by (cases prev) auto
  show ?case
  proof (cases "lastEnd \<le> int (s_start s)")
    case True
    then have "pick_loop (s # ss) lastEnd picked = (picked @ [s]) @ greedy_keep (Some s) ss"
      using Cons.IH[where prev="Some s" and lastEnd="int (s_end s)" and picked="picked @ [s]"]
      by simp
    with True c show ?thesis by simp
  next
    case False
    then have "pick_loop (s # ss) lastEnd picked = picked @ greedy_keep prev ss"
      using Cons.IH[OF Cons.prems, where picked=picked] by simp
    with False c show ?thesis by simp
  qed
qed

lemma greedy_keep_chain:
  assumes "\<forall>s \<in> set ss. s_start s \<le> s_end s"
  shows "sorted_wrt (\<lambda>a b. s_end a \<le> s_start b) (greedy_keep prev ss)
       \<and> (\<forall>x \<in> set (greedy_keep prev ss).
            (case prev of None \<Rightarrow> True | Some p \<Rightarrow> s_end p \<le> s_start x) \<and> x \<in> set ss)"
  using assms
proof (induction ss arbitrary: prev)
  case Nil
  show ?case by simp
next
  case (Cons s ss)
  from Cons.prems have wf: "\<forall>x \<in> set ss. s_start x \<le> s_end x" and ws: "s_start s \<le> s_end s"
    by simp_all
  show ?case
  proof (cases "case prev of None \<Rightarrow> True | Some p \<Rightarrow> s_end p \<le> s_start s")
    case True
    from Cons.IH[OF wf, of "Some s"] have
      1: "sorted_wrt (\<lambda>a b. s_end a \<le> s_start b) (greedy_keep (Some s) ss)"
      and 2: "\<forall>x \<in> set (greedy_keep (Some s) ss). s_end s \<le> s_start x \<and> x \<in> set ss"
      by simp_all
    have "\<forall>x \<in> set (greedy_keep (Some s) ss).
        (case prev of None \<Rightarrow> True | Some p \<Rightarrow> s_end p \<le> s_start x)"
    proof (cases prev)
      case None
      then show ?thesis by simp
    next
      case (Some p)
      with True have "s_end p \<le> s_start s" by simp
      with ws 2 show ?thesis using Some by fastforce
    qed
    with True 1 2 show ?thesis by auto
  next
    case False
    with Cons.IH[OF wf, of prev] show ?thesis by auto
  qed
qed

section \<open>The pattern compiler, characterised\<close>

lemma escape_with_Cons:
  "escape_with cls (c # s) = (if c \<in> set cls then [bslash, c] else [c]) @ escape_with cls s"
  by (simp add: escape_with_def)

lemma escape_with_Nil [simp]: "escape_with cls [] = []"
  by (simp add: escape_with_def)

lemma no_unescaped_plain:
  "c \<notin> set cls \<Longrightarrow> c \<noteq> bslash \<Longrightarrow> no_unescaped cls (c # r) = no_unescaped cls r"
  by (cases r) simp_all



lemma esc_chars_syntax: "c \<in> set syntax_chars \<longleftrightarrow> c \<in> set esc_chars \<or> c = CHR ''*''"
  by (auto simp: syntax_chars_def esc_chars_def)

lemma meta_chars_esc: "set meta_chars = set esc_chars"
  by (auto simp: meta_chars_def esc_chars_def)

lemma no_unescaped_syntax:
  "CHR ''*'' \<notin> set s \<Longrightarrow> no_unescaped syntax_chars (escExceptStar s)"
proof (induction s)
  case Nil
  show ?case by (simp add: escExceptStar_def escape_with_def)
next
  case (Cons c s)
  then have ih: "no_unescaped syntax_chars (escape_with esc_chars s)" and ne: "c \<noteq> CHR ''*''"
    by (auto simp: escExceptStar_def)
  show ?case
  proof (cases "c \<in> set esc_chars")
    case True
    with ih show ?thesis by (simp add: escExceptStar_def escape_with_Cons)
  next
    case False
    with ne have "c \<notin> set syntax_chars" by (simp add: esc_chars_syntax)
    moreover from False have "c \<noteq> bslash" by (auto simp: esc_chars_def)
    ultimately show ?thesis
      using False ih by (simp add: escExceptStar_def escape_with_Cons no_unescaped_plain)
  qed
qed

lemma escExceptStar_plain: "\<not> hasRegexMeta s \<Longrightarrow> escExceptStar s = s"
  by (induction s)
     (simp_all add: escExceptStar_def escape_with_def hasRegexMeta_def meta_chars_esc)











lemma escExceptStar_append: "escExceptStar (a @ b) = escExceptStar a @ escExceptStar b"
  by (simp add: escExceptStar_def escape_with_def)





section \<open>QueryStringParser\<close>

text \<open>\<^verbatim>\<open>input.replace(/\s+/g, " ")\<close>: every maximal run of whitespace becomes one space.\<close>

function collapse_ws :: "string \<Rightarrow> string" where
  "collapse_ws [] = []"
| "collapse_ws (c # r) =
     (if is_space c then CHR '' '' # collapse_ws (dropWhile is_space r) else c # collapse_ws r)"
  by pat_completeness auto
termination
  by (relation "measure length") (auto simp: length_dropWhile_le le_imp_less_Suc)

text \<open>
  \<^verbatim>\<open>toUpperCase\<close> is only compared with the keywords \<^verbatim>\<open>AND\<close>, \<^verbatim>\<open>OR\<close> and \<^verbatim>\<open>NOT\<close>; on
  code units below 256 only the letters \<^verbatim>\<open>a\<close> to \<^verbatim>\<open>z\<close> are mapped to the letters of a
  keyword, so the model maps those.
\<close>

definition upper_ascii :: "char \<Rightarrow> char" where
  "upper_ascii c =
     (let n = (of_char c :: nat) in if 97 \<le> n \<and> n \<le> 122 then char_of (n - 32) else c)"

record SplitState =
  sp_buf :: string
  sp_depth :: nat
  sp_inQuote :: bool
  sp_quoteChar :: "char option"
  sp_out :: "string list"

definition sp_init :: SplitState where
  "sp_init = \<lparr>sp_buf = [], sp_depth = 0, sp_inQuote = False, sp_quoteChar = None, sp_out = []\<rparr>"

text \<open>\<^verbatim>\<open>pushGroup\<close> and \<^verbatim>\<open>pushTerm\<close>.\<close>

definition push :: "SplitState \<Rightarrow> SplitState" where
  "push st =
     st\<lparr>sp_out := (if trim (sp_buf st) \<noteq> [] then sp_out st @ [trim (sp_buf st)] else sp_out st),
        sp_buf := []\<rparr>"

definition operator_at :: "string \<Rightarrow> string \<Rightarrow> nat \<Rightarrow> bool" where
  "operator_at kw s i =
     (map upper_ascii (take (length kw) (drop i s)) = kw
      \<and> (0 < i \<and> (s ! (i - 1) = CHR '' '' \<or> s ! (i - 1) = CHR '')''))
      \<and> (length s \<le> i + length kw
           \<or> s ! (i + length kw) = CHR '' '' \<or> s ! (i + length kw) = CHR ''(''))"

text \<open>
  The two scanning loops of the source are the same loop, over the keyword \<^verbatim>\<open>AND\<close> and
  over the keyword \<^verbatim>\<open>OR\<close>. After an operator the index moves past the keyword
  (\<^verbatim>\<open>i += 2\<close>, or \<^verbatim>\<open>i += 1\<close>, and the loop's own increment).
\<close>

function split_loop :: "string \<Rightarrow> string \<Rightarrow> nat \<Rightarrow> SplitState \<Rightarrow> SplitState" where
  "split_loop kw s i st =
     (if i < length s then
        (let ch = s ! i in
         if \<not> sp_inQuote st \<and> (ch = dquote \<or> ch = squote) then
           split_loop kw s (i + 1)
             (st\<lparr>sp_inQuote := True, sp_quoteChar := Some ch, sp_buf := sp_buf st @ [ch]\<rparr>)
         else if sp_inQuote st then
           split_loop kw s (i + 1)
             (if sp_quoteChar st = Some ch
              then st\<lparr>sp_buf := sp_buf st @ [ch], sp_inQuote := False, sp_quoteChar := None\<rparr>
              else st\<lparr>sp_buf := sp_buf st @ [ch]\<rparr>)
         else if ch = CHR ''('' then
           split_loop kw s (i + 1) (st\<lparr>sp_depth := sp_depth st + 1, sp_buf := sp_buf st @ [ch]\<rparr>)
         else if ch = CHR '')'' then
           split_loop kw s (i + 1) (st\<lparr>sp_depth := sp_depth st - 1, sp_buf := sp_buf st @ [ch]\<rparr>)
         else if sp_depth st = 0 \<and> operator_at kw s i then
           split_loop kw s (i + (length kw - 1) + 1) (push st)
         else split_loop kw s (i + 1) (st\<lparr>sp_buf := sp_buf st @ [ch]\<rparr>))
      else st)"
  by pat_completeness auto
termination
  by (relation "measure (\<lambda>(kw, s, i, st). length s - i)") auto

declare split_loop.simps [simp del]

definition split_top :: "string \<Rightarrow> string \<Rightarrow> string list" where
  "split_top kw s = sp_out (push (split_loop kw s 0 sp_init))"

text \<open>\<^verbatim>\<open>/^NOT\s+/i\<close> and its removal, followed by \<^verbatim>\<open>trim()\<close>.\<close>

definition starts_not :: "string \<Rightarrow> bool" where
  "starts_not g = (map upper_ascii (take 3 g) = ''NOT'' \<and> 3 < length g \<and> is_space (g ! 3))"

definition strip_not :: "string \<Rightarrow> string" where
  "strip_not g = trim (dropWhile is_space (drop 3 g))"

definition strip_parens :: "string \<Rightarrow> string" where
  "strip_parens g =
     (if g \<noteq> [] \<and> hd g = CHR ''('' \<and> last g = CHR '')'' then trim (butlast (tl g)) else g)"

text \<open>\<^verbatim>\<open>t.replace(/^["']|["']$/g, "")\<close>: one quote character off each end.\<close>

definition is_quote :: "char \<Rightarrow> bool" where
  "is_quote c = (c = dquote \<or> c = squote)"

definition strip_quotes :: "string \<Rightarrow> string" where
  "strip_quotes t =
     (let t1 = (if t \<noteq> [] \<and> is_quote (hd t) then tl t else t)
      in if t1 \<noteq> [] \<and> is_quote (last t1) then butlast t1 else t1)"

definition clean_terms :: "string list \<Rightarrow> string list" where
  "clean_terms ts = filter (\<lambda>t. t \<noteq> []) (map (\<lambda>t. trim (strip_quotes t)) ts)"

text \<open>\<^verbatim>\<open>uid()\<close> is random: the identifiers are a parameter, one for each group.\<close>

definition parse_group :: "(nat \<Rightarrow> string) \<Rightarrow> nat \<times> string \<Rightarrow> Block" where
  "parse_group uids p =
     (let gi = fst p;
          g = trim (snd p);
          excl = starts_not g;
          g1 = (if excl then strip_not g else g);
          g2 = strip_parens g1
      in \<lparr>bid = uids gi, name = ''Group '' @ show_nat (gi + 1),
          terms = clean_terms (split_top ''OR'' g2), isRegex = False, exclude = excl\<rparr>)"

record ParsedQuery =
  pq_blocks :: "Block list"
  pq_operators :: "Operator list"

definition parseBooleanQuery :: "(nat \<Rightarrow> string) \<Rightarrow> string \<Rightarrow> ParsedQuery option" where
  "parseBooleanQuery uids input =
     (if input = [] then None
      else (let s = trim (collapse_ws input);
                groups = split_top ''AND'' s
            in Some \<lparr>pq_blocks = map (parse_group uids) (enumerate 0 groups),
                     pq_operators = replicate (length groups - 1) AND\<rparr>))"

definition applyPastedQuery :: "(nat \<Rightarrow> string) \<Rightarrow> QueryConfig \<Rightarrow> string \<Rightarrow> QueryConfig" where
  "applyPastedQuery uids cfg queryString =
     (case parseBooleanQuery uids queryString of
        None \<Rightarrow> cfg
      | Some parsed \<Rightarrow> cfg\<lparr>blocks := pq_blocks parsed, operators := pq_operators parsed\<rparr>)"

section \<open>The query parser on blank input\<close>

lemma dropWhile_all: "list_all P xs \<Longrightarrow> dropWhile P xs = []"
  by (induction xs) auto

lemma collapse_blank:
  "list_all is_space s \<Longrightarrow> s \<noteq> [] \<Longrightarrow> collapse_ws s = '' ''"
  by (cases s) (simp_all add: dropWhile_all)

lemma trim_space: "trim '' '' = []"
  by (simp add: trim_def is_space_def)

lemma split_top_Nil: "split_top kw [] = []"
  by (simp add: split_top_def split_loop.simps push_def sp_init_def trim_def)

lemma parse_blank:
  "list_all is_space s \<Longrightarrow> s \<noteq> [] \<Longrightarrow>
     parseBooleanQuery uids s = Some \<lparr>pq_blocks = [], pq_operators = []\<rparr>"
  by (simp add: parseBooleanQuery_def collapse_blank trim_space split_top_Nil)

section \<open>EntryParser\<close>

text \<open>\<^verbatim>\<open>src.indexOf(c, i)\<close>.\<close>

definition index_of :: "string \<Rightarrow> char \<Rightarrow> nat \<Rightarrow> nat option" where
  "index_of src c i =
     (let k = length (takeWhile (\<lambda>x. x \<noteq> c) (drop i src))
      in if i + k < length src then Some (i + k) else None)"

text \<open>
  \<^verbatim>\<open>head.match(/^@(\w+)\s*\{\s*/)\<close>: the entry type and the length of the match. The
  greedy quantifiers have nothing to give back: what follows a run of word characters or
  of whitespace is not in the run's class.
\<close>

definition header :: "string \<Rightarrow> (string \<times> nat) option" where
  "header s =
     (case s of
        [] \<Rightarrow> None
      | c # r \<Rightarrow>
          if c \<noteq> CHR ''@'' then None
          else (let w = takeWhile is_word r;
                    r1 = dropWhile is_word r;
                    ws1 = takeWhile is_space r1;
                    r2 = dropWhile is_space r1
                in if w = [] then None
                   else (case r2 of
                           [] \<Rightarrow> None
                         | d # r3 \<Rightarrow>
                             if d = CHR ''{''
                             then Some (w, 1 + length w + length ws1 + 1
                                            + length (takeWhile is_space r3))
                             else None)))"

text \<open>The inner loop that looks for the end of the chunk; it returns the final \<^verbatim>\<open>j\<close>.\<close>

function scan_close :: "string \<Rightarrow> nat \<Rightarrow> nat \<Rightarrow> bool \<Rightarrow> nat" where
  "scan_close src j depth inQuote =
     (if j < length src then
        (let ch = src ! j in
         if ch = dquote \<and> src ! (j - 1) \<noteq> bslash \<and> depth = 1
           then scan_close src (j + 1) depth (\<not> inQuote)
         else if \<not> inQuote then
           (if ch = CHR ''{'' then scan_close src (j + 1) (depth + 1) inQuote
            else if ch = CHR ''}'' then
              (if depth - 1 = 0 then j + 1 else scan_close src (j + 1) (depth - 1) inQuote)
            else scan_close src (j + 1) depth inQuote)
         else scan_close src (j + 1) depth inQuote)
      else j)"
  by pat_completeness auto
termination
  by (relation "measure (\<lambda>(src, j, depth, inQuote). length src - j)") auto

declare scan_close.simps [simp del]

text \<open>
  \<^verbatim>\<open>chunk.match(/^@\w+\s*\{\s*([^,]+)\s*,/s)\<close>: the citation key is what stands between the
  whitespace after the brace and the first comma; when only whitespace stands there, the
  whitespace run gives its last character back and that character is the key.
\<close>

definition cite_key :: "string \<Rightarrow> string option" where
  "cite_key chunk =
     (case chunk of
        [] \<Rightarrow> None
      | c # r \<Rightarrow>
          if c \<noteq> CHR ''@'' \<or> takeWhile is_word r = [] then None
          else (case dropWhile is_space (dropWhile is_word r) of
                  [] \<Rightarrow> None
                | d # rest \<Rightarrow>
                    if d \<noteq> CHR ''{'' then None
                    else (let ws = takeWhile is_space rest;
                              r1 = dropWhile is_space rest;
                              k = takeWhile (\<lambda>x. x \<noteq> CHR '','') r1;
                              r2 = dropWhile (\<lambda>x. x \<noteq> CHR '','') r1
                          in if r2 = [] then None
                             else if k \<noteq> [] then Some k
                             else if ws \<noteq> [] then Some [last ws]
                             else None)))"

text \<open>
  The field pattern
  \<^verbatim>\<open>/(\w+)\s*=\s*("(?:\\.|[^"\\])*"|\{(?:\\.|[^{}]|\{[^{}]*\})*\})\s*,?/gis\<close>.
  \<open>quoted_body\<close> and \<open>brace_body\<close> read the value after its opening character and give
  the number of characters up to and including the closing one. In a quoted value the two
  alternatives exclude each other; in a braced value a backslash can be read with the
  next character or alone, so the alternatives are tried in the pattern's order, the
  closing brace last, as the backtracking matcher does.
\<close>

fun quoted_body :: "string \<Rightarrow> nat option" where
  "quoted_body [] = None"
| "quoted_body [c] = (if c = dquote then Some 1 else None)"
| "quoted_body (c # d # r) =
     (if c = dquote then Some 1
      else if c = bslash then map_option (\<lambda>k. k + 2) (quoted_body r)
      else map_option Suc (quoted_body (d # r)))"

definition not_brace :: "char \<Rightarrow> bool" where
  "not_brace c = (c \<noteq> CHR ''{'' \<and> c \<noteq> CHR ''}'')"

definition or_else :: "'a option \<Rightarrow> 'a option \<Rightarrow> 'a option" where
  "or_else a b = (case a of Some x \<Rightarrow> Some x | None \<Rightarrow> b)"

function brace_body :: "string \<Rightarrow> nat option" where
  "brace_body [] = None"
| "brace_body (c # r) =
     or_else
       (if c = bslash \<and> r \<noteq> [] then map_option (\<lambda>k. k + 2) (brace_body (tl r)) else None)
       (or_else
          (if not_brace c then map_option Suc (brace_body r) else None)
          (or_else
             (if c = CHR ''{'' \<and> dropWhile not_brace r \<noteq> [] \<and> hd (dropWhile not_brace r) = CHR ''}''
              then map_option (\<lambda>k. k + length (takeWhile not_brace r) + 2)
                     (brace_body (tl (dropWhile not_brace r)))
              else None)
             (if c = CHR ''}'' then Some 1 else None)))"
  by pat_completeness auto
termination
proof (relation "measure length")
  show "wf (measure length)" by simp
next
  fix c :: char and r :: string
  assume "c = bslash \<and> r \<noteq> []"
  then show "(tl r, c # r) \<in> measure length" by (cases r) auto
next
  fix c :: char and r :: string
  show "(r, c # r) \<in> measure length" by simp
next
  fix c :: char and r :: string
  have "length (tl (dropWhile not_brace r)) \<le> length r"
    by (metis length_dropWhile_le length_tl diff_le_self le_trans)
  then show "(tl (dropWhile not_brace r), c # r) \<in> measure length" by simp
qed

record FieldMatch =
  fm_key :: string
  fm_val :: string
  fm_len :: nat

definition field_at :: "string \<Rightarrow> FieldMatch option" where
  "field_at s =
     (let w = takeWhile is_word s;
          r1 = dropWhile is_word s;
          ws1 = takeWhile is_space r1;
          r2 = dropWhile is_space r1
      in if w = [] then None
         else (case r2 of
                 [] \<Rightarrow> None
               | e # r3 \<Rightarrow>
                   if e \<noteq> CHR ''='' then None
                   else (let ws2 = takeWhile is_space r3;
                             r4 = dropWhile is_space r3
                         in (case r4 of
                               [] \<Rightarrow> None
                             | q # r5 \<Rightarrow>
                                 (case (if q = dquote then quoted_body r5
                                        else if q = CHR ''{'' then brace_body r5 else None) of
                                    None \<Rightarrow> None
                                  | Some k \<Rightarrow>
                                      (let r6 = drop k r5;
                                           ws3 = takeWhile is_space r6;
                                           r7 = dropWhile is_space r6;
                                           comma = (if r7 \<noteq> [] \<and> hd r7 = CHR '','' then 1 else 0)
                                       in Some \<lparr>fm_key = w, fm_val = take (Suc k) r4,
                                                fm_len = length w + length ws1 + 1 + length ws2
                                                         + Suc k + length ws3 + comma\<rparr>))))))"

lemma field_at_pos: "field_at s = Some m \<Longrightarrow> 0 < fm_len m"
  by (auto simp: field_at_def Let_def split: if_splits list.splits option.splits)

text \<open>
  The loop \<^verbatim>\<open>while ((fm = fieldRe.exec(chunk)))\<close>: the matches from left to right, each
  searched from the end of the one before. A match depends only on the text from its
  start on, so the loop runs over the rest of the chunk.
\<close>

function scan_fields :: "string \<Rightarrow> FieldMatch list" where
  "scan_fields [] = []"
| "scan_fields (c # r) =
     (case field_at (c # r) of
        None \<Rightarrow> scan_fields r
      | Some m \<Rightarrow> m # scan_fields (drop (fm_len m) (c # r)))"
  by pat_completeness auto
termination
proof (relation "measure length")
  show "wf (measure length)" by simp
next
  fix c :: char and r :: string
  show "(r, c # r) \<in> measure length" by simp
next
  fix c :: char and r :: string and m :: FieldMatch
  assume "field_at (c # r) = Some m"
  then have "0 < fm_len m" by (rule field_at_pos)
  then show "(drop (fm_len m) (c # r), c # r) \<in> measure length" by simp
qed

definition strip_outer :: "string \<Rightarrow> string" where
  "strip_outer v =
     (if v \<noteq> [] \<and> ((hd v = CHR ''{'' \<and> last v = CHR ''}'') \<or> (hd v = dquote \<and> last v = dquote))
      then butlast (tl v) else v)"

text \<open>
  \<^verbatim>\<open>fields[key] = val\<close> on a plain object: the key \<^verbatim>\<open>__proto__\<close> is the prototype
  setter, which ignores a string, so it stores nothing.
\<close>

definition set_field :: "(string \<times> string) list \<Rightarrow> FieldMatch \<Rightarrow> (string \<times> string) list" where
  "set_field m fm =
     (let key = map lower (fm_key fm);
          val = strip_outer (trim (fm_val fm))
      in if key = ''__proto__'' then m else AList.update key val m)"

definition fields_of :: "string \<Rightarrow> (string \<times> string) list" where
  "fields_of chunk = foldl set_field [] (scan_fields chunk)"

lemma index_of_ge: "index_of src c i = Some at \<Longrightarrow> i \<le> at \<and> at < length src"
  by (auto simp: index_of_def Let_def split: if_splits)

lemma header_pos: "header s = Some p \<Longrightarrow> 0 < snd p"
  by (auto simp: header_def Let_def split: list.splits if_splits)

lemma scan_close_ge: "j \<le> scan_close src j depth inQuote"
proof (induction src j depth inQuote rule: scan_close.induct)
  case (1 src j depth inQuote)
  show ?case
    apply (subst scan_close.simps)
    using "1.IH" by (auto simp: Let_def dest: Suc_leD)
qed

function parse_loop :: "string \<Rightarrow> nat \<Rightarrow> Entry list \<Rightarrow> Entry list" where
  "parse_loop src i entries =
     (if i < length src then
        (case index_of src CHR ''@'' i of
           None \<Rightarrow> entries
         | Some at \<Rightarrow>
             (case header (drop at src) of
                None \<Rightarrow> parse_loop src (at + 1) entries
              | Some m \<Rightarrow>
                  (let j = scan_close src (at + snd m) 1 False;
                       chunk = trim (take (j - at) (drop at src))
                   in (case cite_key chunk of
                         None \<Rightarrow> parse_loop src j entries
                       | Some ck \<Rightarrow>
                           parse_loop src j
                             (entries @ [\<lparr>entry_type = fst m, citekey = ck,
                                          efields = fields_of chunk, raw = chunk\<rparr>])))))
      else entries)"
  by pat_completeness auto
termination
proof (relation "measure (\<lambda>(src, i, entries). length src - i)")
  show "wf (measure (\<lambda>(src, i, entries). length src - i))" by simp
next
  fix src :: string and i at :: nat and entries :: "Entry list"
  assume "i < length src" "index_of src CHR ''@'' i = Some at"
  then show "((src, at + 1, entries), (src, i, entries))
      \<in> measure (\<lambda>(src, i, entries). length src - i)"
    using index_of_ge[of src "CHR ''@''" i at] by auto
next
  fix src :: string and i at j :: nat and entries :: "Entry list" and m :: "string \<times> nat"
    and chunk :: string
  assume a: "i < length src" "index_of src CHR ''@'' i = Some at"
    "header (drop at src) = Some m" "j = scan_close src (at + snd m) 1 False"
  from a(2) have "i \<le> at" using index_of_ge by blast
  moreover from a(3) have "0 < snd m" by (rule header_pos)
  moreover from a(4) have "at + snd m \<le> j" by (simp add: scan_close_ge)
  ultimately have "i < j" by linarith
  with a(1) show "((src, j, entries), (src, i, entries))
      \<in> measure (\<lambda>(src, i, entries). length src - i)"
    by auto
next
  fix src :: string and i at j :: nat and entries :: "Entry list" and m :: "string \<times> nat"
    and chunk ck :: string
  assume a: "i < length src" "index_of src CHR ''@'' i = Some at"
    "header (drop at src) = Some m" "j = scan_close src (at + snd m) 1 False"
  from a(2) have "i \<le> at" using index_of_ge by blast
  moreover from a(3) have "0 < snd m" by (rule header_pos)
  moreover from a(4) have "at + snd m \<le> j" by (simp add: scan_close_ge)
  ultimately have "i < j" by linarith
  with a(1) show "((src, j, entries @ [\<lparr>entry_type = fst m, citekey = ck,
                                          efields = fields_of chunk, raw = chunk\<rparr>]),
                   (src, i, entries))
      \<in> measure (\<lambda>(src, i, entries). length src - i)"
    by auto
qed

declare parse_loop.simps [simp del]

definition parseBibtexEntries :: "string \<Rightarrow> error + Entry list" where
  "parseBibtexEntries text =
     (let entries = parse_loop text 0 []
      in if entries = [] \<and> trim text \<noteq> [] then Inl ParseFailure else Inr entries)"

text \<open>The run: a parse failure stops it, and no list of records is produced.\<close>

definition run :: "engine \<Rightarrow> QueryConfig \<Rightarrow> string \<Rightarrow> RunOutput outcome" where
  "run eng cfg bib =
     (case parseBibtexEntries bib of
        Inl e \<Rightarrow> Throws e
      | Inr entries \<Rightarrow> run_entries eng cfg entries)"

section \<open>The entry parser, characterised\<close>

lemma trim_Nil_iff: "trim s = [] \<longleftrightarrow> list_all is_space s"
proof
  assume "trim s = []"
  then have "dropWhile is_space (rev (dropWhile is_space s)) = []"
    by (simp add: trim_def)
  then have a: "\<forall>c \<in> set (dropWhile is_space s). is_space c"
    by simp
  have "dropWhile is_space s = []"
  proof (rule ccontr)
    assume ne: "dropWhile is_space s \<noteq> []"
    then have "\<not> is_space (hd (dropWhile is_space s))" by (rule hd_dropWhile)
    moreover from ne have "hd (dropWhile is_space s) \<in> set (dropWhile is_space s)"
      by (rule hd_in_set)
    ultimately show False using a by blast
  qed
  then have "\<forall>c \<in> set s. is_space c" by simp
  then show "list_all is_space s" by (simp add: list_all_iff)
next
  assume "list_all is_space s"
  then have "\<forall>c \<in> set s. is_space c" by (simp add: list_all_iff)
  then have d: "dropWhile is_space s = []" by simp
  show "trim s = []" unfolding trim_def d by simp
qed

lemma index_of_absent: "c \<notin> set src \<Longrightarrow> index_of src c i = None"
proof -
  assume "c \<notin> set src"
  then have "\<forall>x \<in> set (drop i src). x \<noteq> c"
    by (metis in_set_dropD)
  then have "takeWhile (\<lambda>x. x \<noteq> c) (drop i src) = drop i src"
    by (simp add: takeWhile_eq_all_conv)
  then have "length (takeWhile (\<lambda>x. x \<noteq> c) (drop i src)) = length src - i"
    by (metis length_drop)
  then show ?thesis unfolding index_of_def Let_def by simp
qed

lemma parse_loop_no_at: "CHR ''@'' \<notin> set src \<Longrightarrow> parse_loop src i entries = entries"
  by (subst parse_loop.simps) (simp add: index_of_absent)

lemma blank_no_at: "trim s = [] \<Longrightarrow> CHR ''@'' \<notin> set s"
proof
  assume t: "trim s = []" and m: "CHR ''@'' \<in> set s"
  from t have "list_all is_space s" by (simp add: trim_Nil_iff)
  with m have "is_space CHR ''@''" by (simp add: list_all_iff)
  then show False by (simp add: is_space_def)
qed

subsection \<open>An entry that is never closed\<close>

definition unterminated_entry :: string where
  "unterminated_entry = ''@a{k,t={b''"

lemma scan_close_end: "\<not> j < length src \<Longrightarrow> scan_close src j depth inQuote = j"
  by (subst scan_close.simps) simp

lemma scan_close_step:
  "j < length src \<Longrightarrow> scan_close src j depth inQuote =
     (if src ! j = dquote \<and> src ! (j - 1) \<noteq> bslash \<and> depth = 1
        then scan_close src (j + 1) depth (\<not> inQuote)
      else if \<not> inQuote then
        (if src ! j = CHR ''{'' then scan_close src (j + 1) (depth + 1) inQuote
         else if src ! j = CHR ''}'' then
           (if depth - 1 = 0 then j + 1 else scan_close src (j + 1) (depth - 1) inQuote)
         else scan_close src (j + 1) depth inQuote)
      else scan_close src (j + 1) depth inQuote)"
  by (subst scan_close.simps) (simp add: Let_def)

lemma parse_loop_end: "\<not> i < length src \<Longrightarrow> parse_loop src i entries = entries"
  by (subst parse_loop.simps) simp

lemma parse_loop_step:
  "i < length src \<Longrightarrow> parse_loop src i entries =
     (case index_of src CHR ''@'' i of
        None \<Rightarrow> entries
      | Some at \<Rightarrow>
          (case header (drop at src) of
             None \<Rightarrow> parse_loop src (at + 1) entries
           | Some m \<Rightarrow>
               (case cite_key (trim (take (scan_close src (at + snd m) 1 False - at) (drop at src))) of
                  None \<Rightarrow> parse_loop src (scan_close src (at + snd m) 1 False) entries
                | Some ck \<Rightarrow>
                    parse_loop src (scan_close src (at + snd m) 1 False)
                      (entries @ [\<lparr>entry_type = fst m, citekey = ck,
                         efields = fields_of
                           (trim (take (scan_close src (at + snd m) 1 False - at) (drop at src))),
                         raw = trim (take (scan_close src (at + snd m) 1 False - at)
                                 (drop at src))\<rparr>]))))"
  by (subst parse_loop.simps) (simp add: Let_def split: option.splits)

lemma ue_header: "header unterminated_entry = Some (''a'', 3)"
  by (simp add: unterminated_entry_def header_def is_word_def is_space_def)

lemma ue_index: "index_of unterminated_entry CHR ''@'' 0 = Some 0"
  by (simp add: unterminated_entry_def index_of_def)

lemma ue_scan_close: "scan_close unterminated_entry 3 (Suc 0) False = 9"
  by (simp add: unterminated_entry_def scan_close_step scan_close_end)

lemma ue_cite_key: "cite_key unterminated_entry = Some ''k''"
  by (simp add: unterminated_entry_def cite_key_def is_word_def is_space_def)

lemma ue_scan_fields: "scan_fields unterminated_entry = []"
  by (simp add: unterminated_entry_def field_at_def is_word_def is_space_def not_brace_def or_else_def)

lemma ue_trim: "trim unterminated_entry = unterminated_entry"
  by (simp add: unterminated_entry_def trim_def is_space_def)

lemma ue_length: "length unterminated_entry = 9"
  by (simp add: unterminated_entry_def)

lemma ue_fields_of: "fields_of unterminated_entry = []"
  by (simp add: fields_of_def ue_scan_fields)

lemma parse_unterminated_entry: "parse_loop unterminated_entry 0 []
    = [\<lparr>entry_type = ''a'', citekey = ''k'', efields = [], raw = unterminated_entry\<rparr>]"
proof -
  have "parse_loop unterminated_entry 0 []
      = parse_loop unterminated_entry 9
          [\<lparr>entry_type = ''a'', citekey = ''k'', efields = [], raw = unterminated_entry\<rparr>]"
    by (subst parse_loop_step) (simp_all add: ue_length ue_index ue_header ue_scan_close ue_trim ue_cite_key ue_fields_of)
  also have "\<dots> = [\<lparr>entry_type = ''a'', citekey = ''k'', efields = [], raw = unterminated_entry\<rparr>]"
    by (rule parse_loop_end) (simp add: ue_length)
  finally show ?thesis .
qed

section \<open>Claims about the evaluator\<close>

text \<open>
  C4. A query whose blocks all have no non-empty term (a term is non-empty when it is
  not blank after trimming), and so also a query with no block at all, compiles to the
  empty block list, and the evaluator then returns \<open>ok = True\<close> with empty
  \<open>matchedBlocks\<close> and empty \<open>detailed\<close> for every record and every field selection.
\<close>

theorem empty_query_matches:
  assumes "\<forall>b \<in> set (blocks cfg). filter (\<lambda>t. trim t \<noteq> []) (terms b) = []"
  shows "compile eng cfg = [] \<and>
         matchesByFields eng cfg flds sel = \<lparr>ok = True, matchedBlocks = [], detailed = []\<rparr>"
  using assms compile_Nil_iff[of eng cfg] matchesByFields_empty[of eng cfg] by simp

theorem empty_query_matches_witness:
  "matchesByFields frag_engine cfg_blank (title_only ''Anything'') all_fields
     = \<lparr>ok = True, matchedBlocks = [], detailed = []\<rparr>
   \<and> matchesByFields frag_engine (mk_cfg [] []) (title_only ''Anything'') all_fields
     = \<lparr>ok = True, matchedBlocks = [], detailed = []\<rparr>"
proof -
  have h1: "\<forall>b \<in> set (blocks cfg_blank). filter (\<lambda>t. trim t \<noteq> []) (terms b) = []"
    by (simp add: cfg_blank_def mk_cfg_def mk_block_def trim_def is_space_def)
  have h2: "\<forall>b \<in> set (blocks (mk_cfg [] [])). filter (\<lambda>t. trim t \<noteq> []) (terms b) = []"
    by (simp add: mk_cfg_def)
  from empty_query_matches[OF h1] empty_query_matches[OF h2] show ?thesis by simp
qed

text \<open>
  C1. The boolean fold is strictly left-associative, with no operator precedence: the
  result is the left fold of the operators over the blocks' contributions, seeded with the
  first block's contribution. For three blocks joined by (OR, AND) it is
  \<open>(A \<or> B) \<and> C\<close>, and with firing pattern (true, false, true) it is true.
\<close>

theorem fold_left_assoc:
  "ok (matchesByFields eng cfg flds sel) =
     (case compile eng cfg of [] \<Rightarrow> True
      | c0 # cs \<Rightarrow>
          foldl apply_op (contribution eng (texts_of flds sel) c0)
            (zip (operators cfg) (map (contribution eng (texts_of flds sel)) cs)))
   \<and> (compile eng cfg = [a, b, c] \<and> operators cfg = [OR, AND] \<longrightarrow>
        ok (matchesByFields eng cfg flds sel) =
          ((contribution eng (texts_of flds sel) a \<or> contribution eng (texts_of flds sel) b)
            \<and> contribution eng (texts_of flds sel) c))
   \<and> (compile eng cfg = [a, b, c] \<and> operators cfg = [OR, AND] \<and>
        fires eng (texts_of flds sel) a \<and> \<not> fires eng (texts_of flds sel) b \<and>
        fires eng (texts_of flds sel) c \<and>
        \<not> exclude (block a) \<and> \<not> exclude (block b) \<and> \<not> exclude (block c) \<longrightarrow>
        ok (matchesByFields eng cfg flds sel))"
proof (cases "compile eng cfg")
  case Nil
  then show ?thesis by (simp add: matchesByFields_empty)
next
  case (Cons c0 cs)
  then show ?thesis
    by (auto simp: matchesByFields_nonempty apply_op_def contribution_def)
qed

theorem fold_left_assoc_witness:
  "length (compile frag_engine cfg_abc) = 3 \<and> operators cfg_abc = [OR, AND] \<and>
   map (fires frag_engine (texts_of (title_only ''A virtual reality study'') all_fields))
     (compile frag_engine cfg_abc) = [True, False, True] \<and>
   ok (matchesByFields frag_engine cfg_abc (title_only ''A virtual reality study'') all_fields)"
proof -
  let ?cs = "compile frag_engine cfg_abc"
  let ?T = "texts_of (title_only ''A virtual reality study'') all_fields"
  define a where "a = ?cs ! 0"
  define b where "b = ?cs ! 1"
  define c where "c = ?cs ! 2"
  have cs: "?cs = [a, b, c]"
    unfolding a_def b_def c_def by (simp add: cfg_abc_def run_defs)
  have o: "operators cfg_abc = [OR, AND]"
    by (simp add: cfg_abc_def mk_cfg_def)
  have fa: "fires frag_engine ?T a" and fb: "\<not> fires frag_engine ?T b"
    and fc: "fires frag_engine ?T c"
    unfolding a_def b_def c_def by (simp_all add: cfg_abc_def run_defs)
  have ea: "\<not> exclude (block a)" and eb: "\<not> exclude (block b)" and ec: "\<not> exclude (block c)"
    unfolding a_def b_def c_def by (simp_all add: cfg_abc_def run_defs)
  have hyp: "?cs = [a, b, c] \<and> operators cfg_abc = [OR, AND] \<and>
        fires frag_engine ?T a \<and> \<not> fires frag_engine ?T b \<and> fires frag_engine ?T c \<and>
        \<not> exclude (block a) \<and> \<not> exclude (block b) \<and> \<not> exclude (block c)"
    using cs o fa fb fc ea eb ec by blast
  have okT: "ok (matchesByFields frag_engine cfg_abc (title_only ''A virtual reality study'') all_fields)"
    using fold_left_assoc[of frag_engine cfg_abc "title_only ''A virtual reality study''" all_fields
        a b c] hyp by blast
  have len: "length ?cs = 3" by (simp add: cs)
  have m: "map (fires frag_engine ?T) ?cs = [True, False, True]"
    using fa fb fc by (simp add: cs)
  from len o m okT show ?thesis by blast
qed

text \<open>
  C5. NOT semantics. In the fold an excluded block stands for the negation of whether it
  fired. Every name in \<open>matchedBlocks\<close> and every key of \<open>detailed\<close> is the name of a
  non-excluded block that fired, so an excluded block never writes an entry; and when
  the names of the compiled blocks are unique (the invariant of the data model), the name
  of an excluded block is in neither, whether or not the block fired.
\<close>

theorem not_block_semantics:
  "(compile eng cfg = c0 # cs \<longrightarrow>
      ok (matchesByFields eng cfg flds sel) =
        foldl apply_op
          (if exclude (block c0) then \<not> fires eng (texts_of flds sel) c0
           else fires eng (texts_of flds sel) c0)
          (zip (operators cfg)
            (map (\<lambda>c. if exclude (block c) then \<not> fires eng (texts_of flds sel) c
                       else fires eng (texts_of flds sel) c) cs)))
   \<and> set (matchedBlocks (matchesByFields eng cfg flds sel))
        \<union> fst ` set (detailed (matchesByFields eng cfg flds sel))
      \<subseteq> cname ` {c. c \<in> set (compile eng cfg) \<and> \<not> exclude (block c)
                        \<and> fires eng (texts_of flds sel) c}
   \<and> (distinct (map cname (compile eng cfg)) \<and> x \<in> set (compile eng cfg)
        \<and> exclude (block x) \<longrightarrow>
        cname x \<notin> set (matchedBlocks (matchesByFields eng cfg flds sel))
        \<and> cname x \<notin> fst ` set (detailed (matchesByFields eng cfg flds sel)))"
proof (cases "compile eng cfg")
  case Nil
  then show ?thesis by (simp add: matchesByFields_empty)
next
  case (Cons d ds)
  let ?T = "texts_of flds sel"
  let ?out = "matchesByFields eng cfg flds sel"
  let ?P = "d # take (length (operators cfg)) ds"
  have sub: "set ?P \<subseteq> set (compile eng cfg)"
    using Cons by (auto dest: in_set_takeD)
  have mb: "set (matchedBlocks ?out) = cname ` {c \<in> set ?P. pos_fired eng ?T c}"
    by (auto simp: matchesByFields_nonempty[OF Cons])
  have dt: "fst ` set (detailed ?out) \<subseteq> cname ` {c \<in> set ?P. pos_fired eng ?T c}"
  proof -
    have "detailed ?out = foldl (record_hit eng ?T) [] ?P"
      by (simp add: matchesByFields_nonempty[OF Cons])
    then have "fst ` set (detailed ?out) = fst ` set (foldl (record_hit eng ?T) [] ?P)"
      by (rule arg_cong)
    also have "\<dots> = fst ` set ([]::hitMap)
        \<union> cname ` {c \<in> set ?P. pos_fired eng ?T c \<and> cname c \<noteq> ''__proto__''}"
      by (rule keys_record_hits)
    finally show ?thesis by auto
  qed
  have part1: "compile eng cfg = c0 # cs \<longrightarrow>
      ok ?out = foldl apply_op
          (if exclude (block c0) then \<not> fires eng ?T c0 else fires eng ?T c0)
          (zip (operators cfg)
            (map (\<lambda>c. if exclude (block c) then \<not> fires eng ?T c else fires eng ?T c) cs))"
  proof
    assume a: "compile eng cfg = c0 # cs"
    have "contribution eng ?T = (\<lambda>c. if exclude (block c) then \<not> fires eng ?T c else fires eng ?T c)"
      by (rule ext) (simp add: contribution_def)
    then show "ok ?out = foldl apply_op
          (if exclude (block c0) then \<not> fires eng ?T c0 else fires eng ?T c0)
          (zip (operators cfg)
            (map (\<lambda>c. if exclude (block c) then \<not> fires eng ?T c else fires eng ?T c) cs))"
      by (simp add: matchesByFields_nonempty[OF a] contribution_def)
  qed
  have part2: "set (matchedBlocks ?out) \<union> fst ` set (detailed ?out)
      \<subseteq> cname ` {c. c \<in> set (compile eng cfg) \<and> \<not> exclude (block c) \<and> fires eng ?T c}"
    unfolding mb using dt sub by (auto simp: pos_fired_def)
  have part3: "distinct (map cname (compile eng cfg)) \<and> x \<in> set (compile eng cfg)
        \<and> exclude (block x) \<longrightarrow>
        cname x \<notin> set (matchedBlocks ?out) \<and> cname x \<notin> fst ` set (detailed ?out)"
  proof
    assume h: "distinct (map cname (compile eng cfg)) \<and> x \<in> set (compile eng cfg)
        \<and> exclude (block x)"
    then have inj: "inj_on cname (set (compile eng cfg))"
      by (simp add: distinct_map)
    have "cname x \<notin> cname ` {c \<in> set ?P. pos_fired eng ?T c}"
    proof
      assume "cname x \<in> cname ` {c \<in> set ?P. pos_fired eng ?T c}"
      then obtain c where c: "c \<in> set ?P" "pos_fired eng ?T c" "cname x = cname c" by auto
      with sub have "c \<in> set (compile eng cfg)" by auto
      with inj h c(3) have "x = c" by (auto dest: inj_onD)
      with c(2) h show False by (simp add: pos_fired_def)
    qed
    then show "cname x \<notin> set (matchedBlocks ?out) \<and> cname x \<notin> fst ` set (detailed ?out)"
      unfolding mb using dt by blast
  qed
  from part1 part2 part3 show ?thesis by blast
qed

theorem not_block_semantics_witness:
  "length (compile frag_engine cfg_not) = 2
   \<and> distinct (map cname (compile frag_engine cfg_not))
   \<and> exclude (block (compile frag_engine cfg_not ! 1))
   \<and> fires frag_engine (texts_of (title_only ''A virtual reality survey'') all_fields)
        (compile frag_engine cfg_not ! 1)
   \<and> \<not> ok (matchesByFields frag_engine cfg_not (title_only ''A virtual reality survey'') all_fields)
   \<and> cname (compile frag_engine cfg_not ! 1)
        \<notin> set (matchedBlocks
             (matchesByFields frag_engine cfg_not (title_only ''A virtual reality survey'') all_fields))
   \<and> cname (compile frag_engine cfg_not ! 1)
        \<notin> fst ` set (detailed
             (matchesByFields frag_engine cfg_not (title_only ''A virtual reality survey'') all_fields))"
proof -
  let ?cs = "compile frag_engine cfg_not"
  let ?F = "title_only ''A virtual reality survey''"
  let ?T = "texts_of ?F all_fields"
  define a where "a = ?cs ! 0"
  define n where "n = ?cs ! 1"
  have cs: "?cs = [a, n]"
    unfolding a_def n_def by (simp add: cfg_not_def run_defs)
  have o: "operators cfg_not = [AND]"
    by (simp add: cfg_not_def mk_cfg_def)
  have d: "distinct (map cname ?cs)"
    by (simp add: cfg_not_def run_defs)
  have en: "exclude (block n)" and ea: "\<not> exclude (block a)"
    unfolding a_def n_def by (simp_all add: cfg_not_def run_defs)
  have fn: "fires frag_engine ?T n" and fa: "fires frag_engine ?T a"
    unfolding a_def n_def by (simp_all add: cfg_not_def run_defs)
  note th = not_block_semantics[of frag_engine cfg_not a "[n]" ?F all_fields n]
  from th cs have "ok (matchesByFields frag_engine cfg_not ?F all_fields) =
      foldl apply_op (if exclude (block a) then \<not> fires frag_engine ?T a else fires frag_engine ?T a)
        (zip (operators cfg_not)
          (map (\<lambda>c. if exclude (block c) then \<not> fires frag_engine ?T c else fires frag_engine ?T c) [n]))"
    by blast
  then have nok: "\<not> ok (matchesByFields frag_engine cfg_not ?F all_fields)"
    using o en ea fn fa by (simp add: apply_op_def)
  have xin: "n \<in> set ?cs" by (simp add: cs)
  from th d xin en have
    absent: "cname n \<notin> set (matchedBlocks (matchesByFields frag_engine cfg_not ?F all_fields))
      \<and> cname n \<notin> fst ` set (detailed (matchesByFields frag_engine cfg_not ?F all_fields))"
    by blast
  have len: "length ?cs = 2" by (simp add: cs)
  from len d en fn nok absent show ?thesis
    unfolding n_def by blast
qed

lemma compile_operators_update [simp]:
  "compile eng (cfg\<lparr>operators := ops\<rparr>) = compile eng cfg"
  by (simp add: compile_def)

lemma matchesByFields_all_blocks:
  assumes "length (compile eng cfg) \<le> Suc (length (operators cfg))"
  shows "matchedBlocks (matchesByFields eng cfg flds sel) =
           map cname (filter (pos_fired eng (texts_of flds sel)) (compile eng cfg))"
    and "detailed (matchesByFields eng cfg flds sel) =
           foldl (record_hit eng (texts_of flds sel)) [] (compile eng cfg)"
proof -
  show "matchedBlocks (matchesByFields eng cfg flds sel) =
           map cname (filter (pos_fired eng (texts_of flds sel)) (compile eng cfg))"
  proof (cases "compile eng cfg")
    case Nil
    then show ?thesis by (simp add: matchesByFields_empty)
  next
    case (Cons d ds)
    with assms have "take (length (operators cfg)) ds = ds" by simp
    then show ?thesis by (simp add: matchesByFields_nonempty[OF Cons] Cons)
  qed
  show "detailed (matchesByFields eng cfg flds sel) =
           foldl (record_hit eng (texts_of flds sel)) [] (compile eng cfg)"
  proof (cases "compile eng cfg")
    case Nil
    then show ?thesis by (simp add: matchesByFields_empty)
  next
    case (Cons d ds)
    with assms have "take (length (operators cfg)) ds = ds" by simp
    then show ?thesis by (simp add: matchesByFields_nonempty[OF Cons] Cons)
  qed
qed

lemma map_of_record_hits_none:
  "\<forall>c \<in> set cs. cname c = n \<longrightarrow> \<not> pos_fired eng texts c \<Longrightarrow>
     map_of (foldl (record_hit eng texts) det cs) n = map_of det n"
  by (induction cs arbitrary: det) (auto simp: record_hit_def obj_set_def update_conv')

lemma proto_never_key:
  "''__proto__'' \<notin> fst ` set (detailed (matchesByFields eng cfg flds sel))"
proof (cases "compile eng cfg")
  case Nil
  then show ?thesis by (simp add: matchesByFields_empty)
next
  case (Cons d ds)
  have "''__proto__'' \<notin> fst ` set (foldl (record_hit eng (texts_of flds sel)) ([]::hitMap)
      (d # take (length (operators cfg)) ds))"
    by (rule proto_not_key) simp
  then show ?thesis by (simp add: matchesByFields_nonempty[OF Cons])
qed

lemma block_fires_iff:
  "block_fires eng x flds sel \<longleftrightarrow>
     (\<exists>f. field_of f sel \<and> field_of f flds \<noteq> [] \<and>
        (\<exists>p \<in> set (zip (regexes x) (cterms x)).
            rx_test eng (source (fst p)) (flags (fst p)) (field_of f flds)))"
proof -
  have *: "(\<exists>f. P f) \<longleftrightarrow> P Title \<or> P Abstract \<or> P Keywords" for P
    by (metis FieldName.exhaust)
  show ?thesis
    unfolding *
    by (auto simp: block_fires_def hit_list_def filter_empty_conv)
qed

text \<open>
  C10. No short-circuiting. When the operator list is long enough to reach every compiled
  block (which the invariant \<open>length operators = length blocks - 1\<close> of the configuration
  gives), the hit test runs on every usable block: \<open>matchedBlocks\<close> lists the names of
  exactly the non-excluded blocks that fired, in configuration order, and neither it nor
  \<open>detailed\<close> depends on the operators. A block fires iff one of its terms hits some
  selected field whose text is not empty, and the hit list of a field holds the terms that
  hit it (none for a field that is not selected or is empty). The keys of \<open>detailed\<close> are
  the names of the non-excluded blocks that fired, except the name \<^verbatim>\<open>__proto__\<close>, under
  which the hit map stores nothing: a non-excluded block of that name that fired is listed
  in \<open>matchedBlocks\<close> and has no entry in \<open>detailed\<close>. With unique names the entry of any
  other non-excluded block is its per-field hit lists if it fired and is absent otherwise.
\<close>

theorem hitmap_complete:
  "(length (operators cfg) = length (blocks cfg) - 1 \<longrightarrow>
      length (compile eng cfg) \<le> Suc (length (operators cfg)))
   \<and> (length (compile eng cfg) \<le> Suc (length (operators cfg)) \<longrightarrow>
      matchedBlocks (matchesByFields eng cfg flds sel) =
        map cname (filter (\<lambda>c. \<not> exclude (block c) \<and> block_fires eng c flds sel)
          (compile eng cfg))
      \<and> fst ` set (detailed (matchesByFields eng cfg flds sel)) =
        cname ` {c. c \<in> set (compile eng cfg) \<and> \<not> exclude (block c)
                    \<and> block_fires eng c flds sel \<and> cname c \<noteq> ''__proto__''}
      \<and> (distinct (map cname (compile eng cfg)) \<and> x \<in> set (compile eng cfg)
           \<and> \<not> exclude (block x) \<and> cname x \<noteq> ''__proto__'' \<longrightarrow>
           map_of (detailed (matchesByFields eng cfg flds sel)) (cname x) =
             (if block_fires eng x flds sel
              then Some (perFieldHits_of eng x (texts_of flds sel)) else None))
      \<and> (length ops' = length (operators cfg) \<longrightarrow>
           matchedBlocks (matchesByFields eng (cfg\<lparr>operators := ops'\<rparr>) flds sel) =
             matchedBlocks (matchesByFields eng cfg flds sel)
           \<and> detailed (matchesByFields eng (cfg\<lparr>operators := ops'\<rparr>) flds sel) =
             detailed (matchesByFields eng cfg flds sel)))
   \<and> field_terms (perFieldHits_of eng x (texts_of flds sel)) f = hit_list eng x flds sel f
   \<and> (block_fires eng x flds sel \<longleftrightarrow>
        (\<exists>f. field_of f sel \<and> field_of f flds \<noteq> [] \<and>
          (\<exists>p \<in> set (zip (regexes x) (cterms x)).
             rx_test eng (source (fst p)) (flags (fst p)) (field_of f flds))))
   \<and> ''__proto__'' \<notin> fst ` set (detailed (matchesByFields eng cfg flds sel))"
proof -
  let ?T = "texts_of flds sel"
  let ?out = "matchesByFields eng cfg flds sel"
  let ?cs = "compile eng cfg"
  have pf: "pos_fired eng ?T = (\<lambda>c. \<not> exclude (block c) \<and> block_fires eng c flds sel)"
    by (rule ext) (simp add: pos_fired_def fires_block_fires)
  have p1: "length (operators cfg) = length (blocks cfg) - 1 \<longrightarrow>
      length ?cs \<le> Suc (length (operators cfg))"
    using length_compile_le[of eng cfg] by auto
  have p2: "matchedBlocks ?out =
        map cname (filter (\<lambda>c. \<not> exclude (block c) \<and> block_fires eng c flds sel) ?cs)"
    if h: "length ?cs \<le> Suc (length (operators cfg))"
    using matchesByFields_all_blocks(1)[OF h] by (simp add: pf)
  have det: "detailed ?out = foldl (record_hit eng ?T) [] ?cs"
    if h: "length ?cs \<le> Suc (length (operators cfg))"
    by (rule matchesByFields_all_blocks(2)[OF h])
  have p3: "fst ` set (detailed ?out) =
        cname ` {c. c \<in> set ?cs \<and> \<not> exclude (block c) \<and> block_fires eng c flds sel
                    \<and> cname c \<noteq> ''__proto__''}"
    if h: "length ?cs \<le> Suc (length (operators cfg))"
  proof -
    have "fst ` set (foldl (record_hit eng ?T) ([]::hitMap) ?cs)
        = fst ` set ([]::hitMap)
          \<union> cname ` {c \<in> set ?cs. pos_fired eng ?T c \<and> cname c \<noteq> ''__proto__''}"
      by (rule keys_record_hits)
    then show ?thesis by (simp add: det[OF h] pf conj_assoc)
  qed
  have p4: "map_of (detailed ?out) (cname x) =
             (if block_fires eng x flds sel then Some (perFieldHits_of eng x ?T) else None)"
    if h: "length ?cs \<le> Suc (length (operators cfg))"
      and d: "distinct (map cname ?cs)" and xin: "x \<in> set ?cs" and ne: "\<not> exclude (block x)"
      and np: "cname x \<noteq> ''__proto__''"
  proof (cases "block_fires eng x flds sel")
    case True
    with ne have "pos_fired eng ?T x" by (simp add: pf)
    from map_of_record_hits[OF d xin this np] True show ?thesis by (simp add: det[OF h])
  next
    case False
    from d have inj: "inj_on cname (set ?cs)" by (simp add: distinct_map)
    have "\<forall>c \<in> set ?cs. cname c = cname x \<longrightarrow> \<not> pos_fired eng ?T c"
    proof (intro ballI impI)
      fix c assume "c \<in> set ?cs" "cname c = cname x"
      with inj xin have "c = x" by (auto dest: inj_onD)
      with False show "\<not> pos_fired eng ?T c" by (simp add: pf)
    qed
    from map_of_record_hits_none[OF this] False show ?thesis by (simp add: det[OF h])
  qed
  have p5: "matchedBlocks (matchesByFields eng (cfg\<lparr>operators := ops'\<rparr>) flds sel) =
             matchedBlocks ?out
           \<and> detailed (matchesByFields eng (cfg\<lparr>operators := ops'\<rparr>) flds sel) = detailed ?out"
    if h: "length ?cs \<le> Suc (length (operators cfg))" and l: "length ops' = length (operators cfg)"
  proof -
    have h': "length (compile eng (cfg\<lparr>operators := ops'\<rparr>))
        \<le> Suc (length (operators (cfg\<lparr>operators := ops'\<rparr>)))"
      using h l by simp
    show ?thesis
      using matchesByFields_all_blocks[OF h', of flds sel] matchesByFields_all_blocks[OF h, of flds sel]
      by simp
  qed
  have p6: "field_terms (perFieldHits_of eng x ?T) f = hit_list eng x flds sel f"
    using field_terms_perFieldHits[of eng x flds sel f] by (simp add: field_terms_def get_or_def)
  have p7: "block_fires eng x flds sel \<longleftrightarrow>
        (\<exists>f. field_of f sel \<and> field_of f flds \<noteq> [] \<and>
          (\<exists>p \<in> set (zip (regexes x) (cterms x)).
             rx_test eng (source (fst p)) (flags (fst p)) (field_of f flds)))"
    by (rule block_fires_iff)
  have p8: "''__proto__'' \<notin> fst ` set (detailed ?out)"
    by (rule proto_never_key)
  from p1 p2 p3 p4 p5 p6 p7 p8 show ?thesis by blast
qed

theorem hitmap_complete_witness:
  "length (operators cfg_abc) = length (blocks cfg_abc) - 1
   \<and> distinct (map cname (compile frag_engine cfg_abc))
   \<and> length (compile frag_engine cfg_abc) = 3
   \<and> matchedBlocks (matchesByFields frag_engine cfg_abc
        (title_only ''A virtual reality study'') all_fields) = [''A'', ''C'']
   \<and> fst ` set (detailed (matchesByFields frag_engine cfg_abc
        (title_only ''A virtual reality study'') all_fields)) = {''A'', ''C''}
   \<and> map_of (detailed (matchesByFields frag_engine cfg_abc
        (title_only ''A virtual reality study'') all_fields)) ''A''
       = Some [(Title, [''virtual reality''])]
   \<and> matchedBlocks (matchesByFields frag_engine (cfg_abc\<lparr>operators := [AND, AND]\<rparr>)
        (title_only ''A virtual reality study'') all_fields) = [''A'', ''C'']
   \<and> matchedBlocks (matchesByFields frag_engine cfg_abc
        (title_only ''A virtual reality study'')
        \<lparr>f_title = False, f_abstract = True, f_keywords = True\<rparr>) = []
   \<and> matchedBlocks (matchesByFields frag_engine cfg_proto (title_only ''vr'') all_fields)
       = [''__proto__'']
   \<and> fst ` set (detailed (matchesByFields frag_engine cfg_proto (title_only ''vr'') all_fields))
       = {}"
proof -
  let ?cs = "compile frag_engine cfg_abc"
  let ?F = "title_only ''A virtual reality study''"
  let ?N = "\<lparr>f_title = False, f_abstract = True, f_keywords = True\<rparr>"
  let ?out = "matchesByFields frag_engine cfg_abc ?F all_fields"
  define a where "a = ?cs ! 0"
  define b where "b = ?cs ! 1"
  define c where "c = ?cs ! 2"
  have cs: "?cs = [a, b, c]"
    unfolding a_def b_def c_def by (simp add: cfg_abc_def run_defs)
  have inv: "length (operators cfg_abc) = length (blocks cfg_abc) - 1"
    by (simp add: cfg_abc_def mk_cfg_def)
  have names: "cname a = ''A''" "cname b = ''B''" "cname c = ''C''"
    unfolding a_def b_def c_def by (simp_all add: cfg_abc_def run_defs)
  have fa: "block_fires frag_engine a ?F all_fields"
    and fb: "\<not> block_fires frag_engine b ?F all_fields"
    and fc: "block_fires frag_engine c ?F all_fields"
    unfolding a_def b_def c_def
    by (simp_all add: cfg_abc_def block_fires_def hit_list_def run_defs)
  have na: "\<not> block_fires frag_engine a ?F ?N" and nb: "\<not> block_fires frag_engine b ?F ?N"
    and nc: "\<not> block_fires frag_engine c ?F ?N"
    by (simp_all add: block_fires_def hit_list_def title_only_def)
  have ex: "\<not> exclude (block a)" "\<not> exclude (block b)" "\<not> exclude (block c)"
    unfolding a_def b_def c_def by (simp_all add: cfg_abc_def run_defs)
  have pa: "perFieldHits_of frag_engine a (texts_of ?F all_fields) = [(Title, [''virtual reality''])]"
    unfolding a_def by (simp add: cfg_abc_def run_defs)
  have d: "distinct (map cname ?cs)" by (simp add: cs names)
  have len: "length ?cs = 3" by (simp add: cs)
  have ops: "length [AND, AND] = length (operators cfg_abc)"
    by (simp add: cfg_abc_def mk_cfg_def)
  have xin: "a \<in> set ?cs" by (simp add: cs)
  have npa: "cname a \<noteq> ''__proto__''" "cname c \<noteq> ''__proto__''" by (simp_all add: names)
  note th = hitmap_complete[of cfg_abc frag_engine ?F all_fields a "[AND, AND]"]
  from th inv have h: "length ?cs \<le> Suc (length (operators cfg_abc))" by blast
  from th h have m: "matchedBlocks ?out =
      map cname (filter (\<lambda>c. \<not> exclude (block c) \<and> block_fires frag_engine c ?F all_fields) ?cs)"
    by blast
  from th h have k: "fst ` set (detailed ?out) =
      cname ` {c. c \<in> set ?cs \<and> \<not> exclude (block c) \<and> block_fires frag_engine c ?F all_fields
                  \<and> cname c \<noteq> ''__proto__''}" by blast
  from th h d xin ex(1) npa(1) have v: "map_of (detailed ?out) (cname a) =
      (if block_fires frag_engine a ?F all_fields
       then Some (perFieldHits_of frag_engine a (texts_of ?F all_fields)) else None)" by blast
  from th h ops have i: "matchedBlocks (matchesByFields frag_engine (cfg_abc\<lparr>operators := [AND, AND]\<rparr>)
      ?F all_fields) = matchedBlocks ?out" by blast
  have m': "matchedBlocks ?out = [''A'', ''C'']"
    using fa fb fc ex names by (simp add: m cs)
  have k': "fst ` set (detailed ?out) = {''A'', ''C''}"
  proof -
    have "{x. x \<in> set ?cs \<and> \<not> exclude (block x) \<and> block_fires frag_engine x ?F all_fields
            \<and> cname x \<noteq> ''__proto__''} = {a, c}"
      using fa fb fc ex npa by (auto simp: cs)
    then show ?thesis unfolding k using names by simp
  qed
  have v': "map_of (detailed ?out) ''A'' = Some [(Title, [''virtual reality''])]"
    using v fa pa names by simp
  note thn = hitmap_complete[of cfg_abc frag_engine ?F ?N a "[AND, AND]"]
  from thn h have "matchedBlocks (matchesByFields frag_engine cfg_abc ?F ?N) =
      map cname (filter (\<lambda>c. \<not> exclude (block c) \<and> block_fires frag_engine c ?F ?N) ?cs)"
    by blast
  then have n': "matchedBlocks (matchesByFields frag_engine cfg_abc ?F ?N) = []"
    using na nb nc by (simp add: cs)
  let ?ps = "compile frag_engine cfg_proto"
  define q where "q = ?ps ! 0"
  have ps: "?ps = [q]" unfolding q_def by (simp add: cfg_proto_def run_defs)
  have qn: "cname q = ''__proto__''" and qe: "\<not> exclude (block q)"
    and qf: "block_fires frag_engine q (title_only ''vr'') all_fields"
    unfolding q_def
    by (simp_all add: cfg_proto_def block_fires_def hit_list_def run_defs)
  note thp = hitmap_complete[of cfg_proto frag_engine "title_only ''vr''" all_fields q "[]"]
  have hp: "length ?ps \<le> Suc (length (operators cfg_proto))" by (simp add: ps)
  from thp hp have "matchedBlocks (matchesByFields frag_engine cfg_proto (title_only ''vr'') all_fields)
      = map cname (filter (\<lambda>c. \<not> exclude (block c)
            \<and> block_fires frag_engine c (title_only ''vr'') all_fields) ?ps)"
    by blast
  then have pm: "matchedBlocks (matchesByFields frag_engine cfg_proto (title_only ''vr'') all_fields)
      = [''__proto__'']"
    using qn qe qf by (simp add: ps)
  from thp hp have "fst ` set (detailed (matchesByFields frag_engine cfg_proto (title_only ''vr'')
        all_fields)) =
      cname ` {c. c \<in> set ?ps \<and> \<not> exclude (block c)
                  \<and> block_fires frag_engine c (title_only ''vr'') all_fields
                  \<and> cname c \<noteq> ''__proto__''}"
    by blast
  then have pk: "fst ` set (detailed (matchesByFields frag_engine cfg_proto (title_only ''vr'')
        all_fields)) = {}"
    using qn by (auto simp: ps)
  from inv d len m' k' v' i n' pm pk show ?thesis by simp
qed

section \<open>Claims about the run and the term statistics\<close>

text \<open>
  C2. Whenever the run produces its output, every record has exactly one outcome: a record
  with at least one non-empty selected field (eligible) is Matched when the boolean fold
  is true, else Partial when its hit map is non-empty, else Unmatched; a record with no
  non-empty selected field is in no bucket. The three buckets are exactly the records of
  that outcome, in input order; \<open>total\<close> counts every record, \<open>eligible\<close> the eligible ones,
  and matched + partial + unmatched = eligible \<le> total. The run produces its output
  exactly when the aggregator returns on the matched rows, which it does for every
  configuration with plain names; when the aggregator throws, the run has no buckets and
  no report at all.
\<close>

theorem run_buckets:
  "(run_entries eng cfg entries = Returns out \<longrightarrow>
      o_matched out =
        map (\<lambda>e. matched_row e (record_texts e) (evaluate eng cfg e))
          (filter (\<lambda>e. outcome eng cfg e = Matched) entries)
      \<and> o_partial out =
        map (\<lambda>e. partial_row cfg e (record_texts e) (evaluate eng cfg e))
          (filter (\<lambda>e. outcome eng cfg e = Partial) entries)
      \<and> o_unmatched out =
        map (\<lambda>e. unmatched_row e (record_texts e) (evaluate eng cfg e))
          (filter (\<lambda>e. outcome eng cfg e = Unmatched) entries)
      \<and> r_total (report out) = length entries
      \<and> r_eligible (report out) = length (filter (is_eligible cfg) entries)
      \<and> r_matched (report out) = length (o_matched out)
      \<and> r_partial (report out) = length (o_partial out)
      \<and> r_unmatched (report out) = length (o_unmatched out)
      \<and> r_matched (report out) + r_partial (report out) + r_unmatched (report out)
          = r_eligible (report out)
      \<and> r_eligible (report out) \<le> r_total (report out))
   \<and> ((\<exists>out'. run_entries eng cfg entries = Returns out') \<longleftrightarrow>
        (\<exists>ts. computeTermStats cfg
                (map (\<lambda>e. matched_row e (record_texts e) (evaluate eng cfg e))
                   (filter (\<lambda>e. outcome eng cfg e = Matched) entries)) = Returns ts))
   \<and> (plain_names cfg \<longrightarrow> (\<exists>out'. run_entries eng cfg entries = Returns out'))"
proof -
  let ?M = "map (\<lambda>e. matched_row e (record_texts e) (evaluate eng cfg e))
      (filter (\<lambda>e. outcome eng cfg e = Matched) entries)"
  have a: "o_matched out = ?M
      \<and> o_partial out =
        map (\<lambda>e. partial_row cfg e (record_texts e) (evaluate eng cfg e))
          (filter (\<lambda>e. outcome eng cfg e = Partial) entries)
      \<and> o_unmatched out =
        map (\<lambda>e. unmatched_row e (record_texts e) (evaluate eng cfg e))
          (filter (\<lambda>e. outcome eng cfg e = Unmatched) entries)
      \<and> r_total (report out) = length entries
      \<and> r_eligible (report out) = length (filter (is_eligible cfg) entries)
      \<and> r_matched (report out) = length (o_matched out)
      \<and> r_partial (report out) = length (o_partial out)
      \<and> r_unmatched (report out) = length (o_unmatched out)
      \<and> r_matched (report out) + r_partial (report out) + r_unmatched (report out)
          = r_eligible (report out)
      \<and> r_eligible (report out) \<le> r_total (report out)"
    if h: "run_entries eng cfg entries = Returns out"
    using run_entries_Returns(1-4)[OF h] outcome_partition[of eng cfg entries]
    by simp
  have b: "(\<exists>out'. run_entries eng cfg entries = Returns out') \<longleftrightarrow>
        (\<exists>ts. computeTermStats cfg ?M = Returns ts)"
    by (auto simp: run_entries_def Let_def run_loop_char split: outcome.splits)
  have c: "plain_names cfg \<longrightarrow> (\<exists>out'. run_entries eng cfg entries = Returns out')"
    using run_entries_plain[of cfg eng entries] by blast
  from a b c show ?thesis by blast
qed

lemmas ev_defs = matchesByFields_def eval_loop.simps blockHitAtLeastOne_def obj_set_def
  outcome_def is_eligible_def evaluate_def record_texts_def eprop_def mk_entry_def

lemmas ts_defs = computeTermStats_def row_step_def block_step_def field_step_def term_step_def
  obj_get_def or_assign_def obj_entries_def is_index_def is_digit_def ensure_def field_terms_def
  get_or_def count_term_def zero_stat_def bump_def fill_block_def fill_term_def block_name_def
  proto_names_def

theorem run_buckets_witness:
  "(\<exists>out. run_entries frag_engine cfg_run ex_entries = Returns out
      \<and> map CiteKey (o_matched out) = [''k1'']
      \<and> map CiteKey (o_partial out) = [''k2'']
      \<and> map CiteKey (o_unmatched out) = [''k3'']
      \<and> report out
          = \<lparr>r_total = 4, r_eligible = 3, r_matched = 1, r_partial = 1, r_unmatched = 1\<rparr>)
   \<and> is_eligible cfg_ctor ex_ctor_entry
   \<and> run_entries frag_engine cfg_ctor [ex_ctor_entry] = Throws TypeError"
proof -
  have oc: "map (outcome frag_engine cfg_run) ex_entries
      = [Matched, Partial, Unmatched, Ineligible]"
    by (simp add: ex_entries_def cfg_run_def ev_defs run_defs)
  have el: "map (is_eligible cfg_run) ex_entries = [True, True, True, False]"
    by (simp add: ex_entries_def cfg_run_def mk_cfg_def all_fields_def is_eligible_def eprop_def
        mk_entry_def)
  have pn: "plain_names cfg_run"
    by (simp add: plain_names_def cfg_run_def mk_cfg_def mk_block_def block_name_def
        proto_names_def)
  note th = run_buckets[of frag_engine cfg_run ex_entries]
  from th pn obtain out where r: "run_entries frag_engine cfg_run ex_entries = Returns out"
    by blast
  have ck: "CiteKey (matched_row e t m) = entry_citekey e"
      "CiteKey (partial_row cfg e t m) = entry_citekey e"
      "CiteKey (unmatched_row e t m) = entry_citekey e" for e t m cfg
    by (simp_all add: matched_row_def partial_row_def unmatched_row_def base_row_def)
  from th[of out] have "run_entries frag_engine cfg_run ex_entries = Returns out \<longrightarrow>
      o_matched out =
        map (\<lambda>e. matched_row e (record_texts e) (evaluate frag_engine cfg_run e))
          (filter (\<lambda>e. outcome frag_engine cfg_run e = Matched) ex_entries)
      \<and> o_partial out =
        map (\<lambda>e. partial_row cfg_run e (record_texts e) (evaluate frag_engine cfg_run e))
          (filter (\<lambda>e. outcome frag_engine cfg_run e = Partial) ex_entries)
      \<and> o_unmatched out =
        map (\<lambda>e. unmatched_row e (record_texts e) (evaluate frag_engine cfg_run e))
          (filter (\<lambda>e. outcome frag_engine cfg_run e = Unmatched) ex_entries)
      \<and> r_total (report out) = length ex_entries
      \<and> r_eligible (report out) = length (filter (is_eligible cfg_run) ex_entries)
      \<and> r_matched (report out) = length (o_matched out)
      \<and> r_partial (report out) = length (o_partial out)
      \<and> r_unmatched (report out) = length (o_unmatched out)
      \<and> r_matched (report out) + r_partial (report out) + r_unmatched (report out)
          = r_eligible (report out)
      \<and> r_eligible (report out) \<le> r_total (report out)"
    by (rule conjunct1)
  from mp[OF this r] have
    m: "o_matched out =
        map (\<lambda>e. matched_row e (record_texts e) (evaluate frag_engine cfg_run e))
          (filter (\<lambda>e. outcome frag_engine cfg_run e = Matched) ex_entries)"
    and p: "o_partial out =
        map (\<lambda>e. partial_row cfg_run e (record_texts e) (evaluate frag_engine cfg_run e))
          (filter (\<lambda>e. outcome frag_engine cfg_run e = Partial) ex_entries)"
    and u: "o_unmatched out =
        map (\<lambda>e. unmatched_row e (record_texts e) (evaluate frag_engine cfg_run e))
          (filter (\<lambda>e. outcome frag_engine cfg_run e = Unmatched) ex_entries)"
    and t: "r_total (report out) = length ex_entries"
    and e: "r_eligible (report out) = length (filter (is_eligible cfg_run) ex_entries)"
    and c: "r_matched (report out) = length (o_matched out)"
       "r_partial (report out) = length (o_partial out)"
       "r_unmatched (report out) = length (o_unmatched out)"
    by simp_all
  have m': "map CiteKey (o_matched out) = [''k1'']"
    using oc unfolding m
    by (simp add: ex_entries_def ck entry_citekey_def eprop_def mk_entry_def comp_def)
  have p': "map CiteKey (o_partial out) = [''k2'']"
    using oc unfolding p
    by (simp add: ex_entries_def ck entry_citekey_def eprop_def mk_entry_def comp_def)
  have u': "map CiteKey (o_unmatched out) = [''k3'']"
    using oc unfolding u
    by (simp add: ex_entries_def ck entry_citekey_def eprop_def mk_entry_def comp_def)
  have t': "r_total (report out) = 4" using t by (simp add: ex_entries_def)
  have e': "r_eligible (report out) = 3" using el unfolding e by (simp add: ex_entries_def)
  have lens: "length (o_matched out) = 1" "length (o_partial out) = 1"
      "length (o_unmatched out) = 1"
    using arg_cong[OF m', of length] arg_cong[OF p', of length] arg_cong[OF u', of length]
    by simp_all
  have rep: "report out
      = \<lparr>r_total = 4, r_eligible = 3, r_matched = 1, r_partial = 1, r_unmatched = 1\<rparr>"
    using t' e' c lens by (cases "report out") simp
  have elc: "is_eligible cfg_ctor ex_ctor_entry"
    by (simp add: cfg_ctor_def ex_ctor_entry_def mk_cfg_def all_fields_def is_eligible_def
        eprop_def mk_entry_def)
  have mrow: "foldl (run_step frag_engine cfg_ctor)
      \<lparr>eligible = 0, matchedRows = [], partialRows = [], unmatchedRows = []\<rparr> [ex_ctor_entry]
   = \<lparr>eligible = 1, matchedRows = [\<lparr>CiteKey = ''k1'', TitleRaw = ''constructor'',
         AbstractRaw = [], KeywordsRaw = [],
         MatchedTermsMap = [(''A'', [(Title, [''constructor''])])],
         MatchedBlocks = Some ''A'', PartialBlocks = None, MissingBlocks = None\<rparr>],
       partialRows = [], unmatchedRows = []\<rparr>"
    by (simp add: cfg_ctor_def ex_ctor_entry_def run_step_def entry_texts_def hasAny_def
        matched_row_def base_row_def entry_citekey_def ev_defs run_defs)
  have thr: "run_entries frag_engine cfg_ctor [ex_ctor_entry] = Throws TypeError"
    unfolding run_entries_def Let_def mrow
    by (simp add: cfg_ctor_def mk_cfg_def mk_block_def ts_defs)
  from r m' p' u' rep have "\<exists>out. run_entries frag_engine cfg_run ex_entries = Returns out
      \<and> map CiteKey (o_matched out) = [''k1'']
      \<and> map CiteKey (o_partial out) = [''k2'']
      \<and> map CiteKey (o_unmatched out) = [''k3'']
      \<and> report out
          = \<lparr>r_total = 4, r_eligible = 3, r_matched = 1, r_partial = 1, r_unmatched = 1\<rparr>"
    by (intro exI[of _ out] conjI)
  with elc thr show ?thesis by (intro conjI)
qed

text \<open>
  C9. Document frequency. Whenever the aggregator returns, a term's overall count is the
  number of matched records in whose hit map the term appears, however many fields or
  blocks of the record it hit in, and the overall list holds exactly the terms that
  appear in some record. A term of a configured block that is not blank and is not the
  name of a member of \<^verbatim>\<open>Object.prototype\<close> appears (trimmed) in that block's breakdown,
  with all counts zero when no record has it. A configured term that is such a name
  (\<^verbatim>\<open>constructor\<close>, \<^verbatim>\<open>toString\<close>, ...) has no entry in the breakdown. The aggregator
  returns when no block name and no term of the rows' hit maps is such a name.
\<close>

theorem term_stats_document_frequency:
  "(computeTermStats cfg rows = Returns ts \<longrightarrow>
      totalMatchedStudies ts = length rows
      \<and> get_or 0 (overallTop ts) t = doc_frequency rows t
      \<and> (t \<in> fst ` set (overallTop ts) \<longleftrightarrow> (\<exists>r \<in> set rows. t \<in> set (row_terms r)))
      \<and> (i < length (blocks cfg) \<and> rawterm \<in> set (terms (blocks cfg ! i)) \<and> trim rawterm \<noteq> []
           \<longrightarrow>
           (trim rawterm \<notin> set proto_names \<longrightarrow>
              (\<exists>tm lst s.
                 map_of (ts_perBlock ts) (block_name (i, blocks cfg ! i)) = Some tm
                 \<and> map_of tm (trim rawterm) = Some s
                 \<and> ((\<forall>r \<in> set rows. trim rawterm \<notin> set (row_terms r)) \<longrightarrow> s = zero_stat)
                 \<and> map_of (topByBlock ts) (block_name (i, blocks cfg ! i)) = Some lst
                 \<and> (trim rawterm, s) \<in> set lst))
           \<and> (trim rawterm \<in> set proto_names \<longrightarrow>
                look (ts_perBlock ts) (block_name (i, blocks cfg ! i)) (trim rawterm) = None
                \<and> (\<forall>lst. (block_name (i, blocks cfg ! i), lst) \<in> set (topByBlock ts)
                       \<longrightarrow> trim rawterm \<notin> fst ` set lst))))
   \<and> ((\<forall>r \<in> set rows. plain_row r) \<and> plain_blocks cfg \<longrightarrow>
        (\<exists>ts'. computeTermStats cfg rows = Returns ts'))"
proof -
  let ?init = "\<lparr>overallDocCounts = [],
        overallFieldCounts = \<lparr>f_title = [], f_abstract = [], f_keywords = []\<rparr>,
        perBlock = []\<rparr>"
  let ?n = "block_name (i, blocks cfg ! i)"
  let ?t = "trim rawterm"
  have main: "totalMatchedStudies ts = length rows
      \<and> get_or 0 (overallTop ts) t = doc_frequency rows t
      \<and> (t \<in> fst ` set (overallTop ts) \<longleftrightarrow> (\<exists>r \<in> set rows. t \<in> set (row_terms r)))
      \<and> (i < length (blocks cfg) \<and> rawterm \<in> set (terms (blocks cfg ! i)) \<and> ?t \<noteq> []
           \<longrightarrow>
           (?t \<notin> set proto_names \<longrightarrow>
              (\<exists>tm lst s.
                 map_of (ts_perBlock ts) ?n = Some tm
                 \<and> map_of tm ?t = Some s
                 \<and> ((\<forall>r \<in> set rows. ?t \<notin> set (row_terms r)) \<longrightarrow> s = zero_stat)
                 \<and> map_of (topByBlock ts) ?n = Some lst
                 \<and> (?t, s) \<in> set lst))
           \<and> (?t \<in> set proto_names \<longrightarrow>
                look (ts_perBlock ts) ?n ?t = None
                \<and> (\<forall>lst. (?n, lst) \<in> set (topByBlock ts) \<longrightarrow> ?t \<notin> fst ` set lst)))"
    if h: "computeTermStats cfg rows = Returns ts"
  proof -
    from h obtain st pb where
      st: "for_each row_step ?init rows = Returns st"
      and pb: "for_each fill_block (perBlock st) (enumerate 0 (blocks cfg)) = Returns pb"
      and ts: "ts = \<lparr>totalMatchedStudies = length rows,
               overallTop = sort_desc snd (overallDocCounts st),
               topByBlock =
                 map (\<lambda>p. (fst p, sort_desc (\<lambda>q. docCount (snd q)) (obj_entries (snd p))))
                   (obj_entries pb),
               ts_perBlock = pb,
               ts_overallFieldCounts = overallFieldCounts st\<rparr>"
      by (rule computeTermStats_Returns)
    have st': "st = foldl row_count ?init rows" by (rule rows_Returns[OF st])
    have pb': "pb = foldl put_block (perBlock st) (enumerate 0 (blocks cfg))"
      by (rule fill_Returns[OF pb])
    have d: "distinct (map fst (overallDocCounts st))"
      unfolding st' by (rule rows_fold_distinct) simp
    have dpb0: "distinct (map fst (perBlock st))"
      unfolding st' by (rule distinct_rows_count) simp
    have dpb: "distinct (map fst pb)"
      unfolding pb' by (rule distinct_put_blocks[OF dpb0])
    have c0: "totalMatchedStudies ts = length rows" by (simp add: ts)
    have c1: "get_or 0 (overallTop ts) t = doc_frequency rows t"
      using rows_fold_count[of ?init rows t]
      by (simp add: ts st' get_or_def map_of_sort_desc[OF d[unfolded st']])
    have c2: "t \<in> fst ` set (overallTop ts) \<longleftrightarrow> (\<exists>r \<in> set rows. t \<in> set (row_terms r))"
      using rows_fold_keys[of ?init rows] by (simp add: ts st')
    have tb: "map_of (topByBlock ts) n =
        map_option (\<lambda>tm. sort_desc (\<lambda>q. docCount (snd q)) (obj_entries tm)) (map_of pb n)" for n
      using map_of_map_snd[of "\<lambda>tm. sort_desc (\<lambda>q. docCount (snd q)) (obj_entries tm)"
          "obj_entries pb" n]
      by (simp add: ts map_of_obj_entries[OF dpb])
    have c3: "\<exists>tm lst s.
                 map_of (ts_perBlock ts) ?n = Some tm
                 \<and> map_of tm ?t = Some s
                 \<and> ((\<forall>r \<in> set rows. ?t \<notin> set (row_terms r)) \<longrightarrow> s = zero_stat)
                 \<and> map_of (topByBlock ts) ?n = Some lst
                 \<and> (?t, s) \<in> set lst"
      if g: "i < length (blocks cfg)" "rawterm \<in> set (terms (blocks cfg ! i))" "?t \<noteq> []"
        "?t \<notin> set proto_names"
    proof -
      let ?s = "case look (perBlock st) ?n ?t of None \<Rightarrow> zero_stat | Some s \<Rightarrow> s"
      have lk: "look pb ?n ?t = Some ?s"
        unfolding pb' look_put_blocks
        using filled_by_enumerate[OF g(1) g(2)] g(3) g(4)
        by (cases "look (perBlock st) ?n ?t") simp_all
      from look_Some_block[OF lk] obtain tm where
        tm: "map_of pb ?n = Some tm" "map_of tm ?t = Some ?s" by blast
      have z: "(\<forall>r \<in> set rows. ?t \<notin> set (row_terms r)) \<longrightarrow> ?s = zero_stat"
      proof
        assume a: "\<forall>r \<in> set rows. ?t \<notin> set (row_terms r)"
        have "\<forall>n. look (perBlock st) n ?t = None"
          by (rule look_None_rows[OF disjI2[OF a] _ st]) (simp add: look_def get_or_def)
        then show "?s = zero_stat" by simp
      qed
      from tm(2) have "(?t, ?s) \<in> set tm" by (rule map_of_SomeD)
      then have "(?t, ?s) \<in> set (sort_desc (\<lambda>q. docCount (snd q)) (obj_entries tm))" by simp
      moreover have "map_of (topByBlock ts) ?n
          = Some (sort_desc (\<lambda>q. docCount (snd q)) (obj_entries tm))"
        by (simp add: tb tm(1))
      moreover have "map_of (ts_perBlock ts) ?n = Some tm" by (simp add: ts tm(1))
      ultimately have "map_of (ts_perBlock ts) ?n = Some tm
                 \<and> map_of tm ?t = Some ?s
                 \<and> ((\<forall>r \<in> set rows. ?t \<notin> set (row_terms r)) \<longrightarrow> ?s = zero_stat)
                 \<and> map_of (topByBlock ts) ?n
                     = Some (sort_desc (\<lambda>q. docCount (snd q)) (obj_entries tm))
                 \<and> (?t, ?s) \<in> set (sort_desc (\<lambda>q. docCount (snd q)) (obj_entries tm))"
        using tm(2) z by blast
      then show ?thesis by blast
    qed
    have c4: "look (ts_perBlock ts) ?n ?t = None
        \<and> (\<forall>lst. (?n, lst) \<in> set (topByBlock ts) \<longrightarrow> ?t \<notin> fst ` set lst)"
      if g: "?t \<in> set proto_names"
    proof -
      have l0: "\<forall>n. look (perBlock st) n ?t = None"
        by (rule look_None_rows[OF disjI1[OF g] _ st]) (simp add: look_def get_or_def)
      have lk: "look pb n ?t = None" for n
        unfolding pb' look_put_blocks using g l0 by simp
      have "?t \<notin> fst ` set lst" if m: "(?n, lst) \<in> set (topByBlock ts)" for lst
      proof -
        from m obtain tm where tm: "(?n, tm) \<in> set pb"
          and lst: "lst = sort_desc (\<lambda>q. docCount (snd q)) (obj_entries tm)"
          by (auto simp: ts)
        from tm dpb have "map_of pb ?n = Some tm" by simp
        with lk[of ?n] have "map_of tm ?t = None" by (simp add: look_def get_or_def)
        then show ?thesis by (simp add: lst map_of_eq_None_iff)
      qed
      with lk show ?thesis by (simp add: ts)
    qed
    from c0 c1 c2 c3 c4 show ?thesis by blast
  qed
  have tot: "(\<forall>r \<in> set rows. plain_row r) \<and> plain_blocks cfg \<longrightarrow>
        (\<exists>ts'. computeTermStats cfg rows = Returns ts')"
    using computeTermStats_plain[of rows cfg] by blast
  from main tot show ?thesis by blast
qed

theorem term_stats_document_frequency_witness:
  "(\<exists>ts. computeTermStats cfg_vr [ex_row] = Returns ts
      \<and> get_or 0 (overallTop ts) ''vr'' = 1
      \<and> (\<exists>tm. map_of (ts_perBlock ts) ''A'' = Some tm \<and> map_of tm ''lab'' = Some zero_stat)
      \<and> '' lab '' \<in> set (terms (blocks cfg_vr ! 0)) \<and> trim '' lab '' = ''lab''
      \<and> ''constructor'' \<in> set (terms (blocks cfg_vr ! 0))
      \<and> look (ts_perBlock ts) ''A'' ''constructor'' = None)"
proof -
  have h1: "0 < length (blocks cfg_vr)" by (simp add: cfg_vr_def mk_cfg_def)
  have h2: "'' lab '' \<in> set (terms (blocks cfg_vr ! 0))"
      "''constructor'' \<in> set (terms (blocks cfg_vr ! 0))"
    by (simp_all add: cfg_vr_def mk_cfg_def mk_block_def)
  have h3: "trim '' lab '' = ''lab''" "trim ''constructor'' = ''constructor''"
    by (simp_all add: trim_def is_space_def)
  have h4: "''lab'' \<notin> set proto_names" "''constructor'' \<in> set proto_names"
    by (simp_all add: proto_names_def)
  have n: "block_name (0, blocks cfg_vr ! 0) = ''A''"
    by (simp add: cfg_vr_def mk_cfg_def mk_block_def block_name_def)
  have df: "doc_frequency [ex_row] ''vr'' = 1"
    by (simp add: doc_frequency_def row_terms_def ex_row_def field_terms_def get_or_def)
  have nl: "\<forall>r \<in> set [ex_row]. ''lab'' \<notin> set (row_terms r)"
    by (simp add: row_terms_def ex_row_def field_terms_def get_or_def)
  have pr: "\<forall>r \<in> set [ex_row]. plain_row r"
    by (simp add: plain_row_def row_terms_def ex_row_def field_terms_def get_or_def
        proto_names_def)
  have pbk: "plain_blocks cfg_vr"
    by (simp add: plain_blocks_def cfg_vr_def mk_cfg_def mk_block_def block_name_def
        proto_names_def)
  from term_stats_document_frequency[of cfg_vr "[ex_row]"] pr pbk
  obtain ts where r: "computeTermStats cfg_vr [ex_row] = Returns ts" by blast
  note th = term_stats_document_frequency[of cfg_vr "[ex_row]" ts]
  from th[of "''vr''"] r df have c: "get_or 0 (overallTop ts) ''vr'' = 1" by simp
  from th[of _ 0 "'' lab ''"] r h1 h2(1) h3(1) h4(1) have "\<exists>tm lst s.
      map_of (ts_perBlock ts) (block_name (0, blocks cfg_vr ! 0)) = Some tm
      \<and> map_of tm ''lab'' = Some s
      \<and> ((\<forall>r \<in> set [ex_row]. ''lab'' \<notin> set (row_terms r)) \<longrightarrow> s = zero_stat)
      \<and> map_of (topByBlock ts) (block_name (0, blocks cfg_vr ! 0)) = Some lst
      \<and> (''lab'', s) \<in> set lst"
    by simp
  with nl have z: "\<exists>tm. map_of (ts_perBlock ts) ''A'' = Some tm \<and> map_of tm ''lab'' = Some zero_stat"
    unfolding n by blast
  from th[of _ 0 "''constructor''"] r h1 h2(2) h3(2) h4(2)
  have k: "look (ts_perBlock ts) ''A'' ''constructor'' = None"
    unfolding n by simp
  from r c z h2 h3(1) k show ?thesis by blast
qed

section \<open>Claims about the span highlighter\<close>

text \<open>
  C6. The selected spans are ordered and do not overlap: their starts ascend, and of any
  two of them the earlier ends at or before the start of the later. The selection is the
  greedy rule: all collected spans are sorted by ascending start, ties toward the longer
  span (a permutation of the collected spans), and a span is kept only if it starts at or
  after the end of the span kept before it.
\<close>

theorem spans_ordered_nonoverlapping:
  "sorted (map s_start (collectSpans ex text arr))
   \<and> (\<forall>i j. i < j \<and> j < length (collectSpans ex text arr) \<longrightarrow>
         s_end (collectSpans ex text arr ! i) \<le> s_start (collectSpans ex text arr ! j))
   \<and> (\<forall>i j. i < length (collectSpans ex text arr) \<and> j < length (collectSpans ex text arr)
         \<and> i \<noteq> j \<longrightarrow>
         s_end (collectSpans ex text arr ! i) \<le> s_start (collectSpans ex text arr ! j)
         \<or> s_end (collectSpans ex text arr ! j) \<le> s_start (collectSpans ex text arr ! i))
   \<and> collectSpans ex text arr = greedy_keep None (sort_spans (collected ex text arr))
   \<and> sorted_wrt span_le (sort_spans (collected ex text arr))
   \<and> mset (sort_spans (collected ex text arr)) = mset (collected ex text arr)"
proof -
  let ?out = "collectSpans ex text arr"
  let ?srt = "sort_spans (collected ex text arr)"
  have g: "?out = greedy_keep None ?srt"
    unfolding collectSpans_def
    using pick_loop_greedy[of "- 1" None ?srt "[]"]
    by simp
  have wf: "\<forall>s \<in> set ?srt. s_start s \<le> s_end s"
    using collected_wf by (simp add: set_sort_spans)
  from greedy_keep_chain[OF wf, of None] have
    chain: "sorted_wrt (\<lambda>a b. s_end a \<le> s_start b) ?out"
    and sub: "\<forall>x \<in> set ?out. x \<in> set ?srt"
    unfolding g by simp_all
  have lt: "s_end (?out ! i) \<le> s_start (?out ! j)" if "i < j" "j < length ?out" for i j
    using chain that by (simp add: sorted_wrt_iff_nth_less)
  have wfo: "s_start (?out ! i) \<le> s_end (?out ! i)" if "i < length ?out" for i
    using sub wf that by (meson nth_mem)
  have srt: "sorted (map s_start ?out)"
  proof -
    have "s_start (?out ! i) \<le> s_start (?out ! j)" if "i < j" "j < length ?out" for i j
      using lt[OF that] wfo[of i] that by simp
    then show ?thesis
      by (simp add: sorted_iff_nth_mono_less)
  qed
  have p2: "\<forall>i j. i < j \<and> j < length ?out \<longrightarrow> s_end (?out ! i) \<le> s_start (?out ! j)"
    using lt by blast
  have p3: "\<forall>i j. i < length ?out \<and> j < length ?out \<and> i \<noteq> j \<longrightarrow>
         s_end (?out ! i) \<le> s_start (?out ! j) \<or> s_end (?out ! j) \<le> s_start (?out ! i)"
  proof (intro allI impI)
    fix i j
    assume h: "i < length ?out \<and> j < length ?out \<and> i \<noteq> j"
    then consider "i < j" | "j < i" by linarith
    then show "s_end (?out ! i) \<le> s_start (?out ! j) \<or> s_end (?out ! j) \<le> s_start (?out ! i)"
    proof cases
      case 1
      with h lt[of i j] show ?thesis by simp
    next
      case 2
      with h lt[of j i] show ?thesis by simp
    qed
  qed
  have p5: "sorted_wrt span_le ?srt"
    by (rule sorted_sort_spans_le) (rule collected_wf)
  have p6: "mset ?srt = mset (collected ex text arr)"
    by (rule mset_sort_spans)
  from srt p2 p3 g p5 p6 show ?thesis by blast
qed

theorem spans_ordered_nonoverlapping_witness:
  "collectSpans lit_exec ''virtual reality'' ex_arr =
     [\<lparr>s_start = 0, s_end = 7, s_block = ''C'', s_text = ''virtual''\<rparr>,
      \<lparr>s_start = 8, s_end = 15, s_block = ''B'', s_text = ''reality''\<rparr>]
   \<and> (0::nat) < 1 \<and> 1 < length (collectSpans lit_exec ''virtual reality'' ex_arr)
   \<and> s_end (collectSpans lit_exec ''virtual reality'' ex_arr ! 0)
        \<le> s_start (collectSpans lit_exec ''virtual reality'' ex_arr ! 1)"
proof -
  have e: "collectSpans lit_exec ''virtual reality'' ex_arr =
     [\<lparr>s_start = 0, s_end = 7, s_block = ''C'', s_text = ''virtual''\<rparr>,
      \<lparr>s_start = 8, s_end = 15, s_block = ''B'', s_text = ''reality''\<rparr>]"
    by code_simp
  have l: "(0::nat) < 1 \<and> 1 < length (collectSpans lit_exec ''virtual reality'' ex_arr)"
    by (simp add: e)
  from spans_ordered_nonoverlapping[of lit_exec "''virtual reality''" ex_arr] l
  have "s_end (collectSpans lit_exec ''virtual reality'' ex_arr ! 0)
        \<le> s_start (collectSpans lit_exec ''virtual reality'' ex_arr ! 1)"
    by blast
  with e l show ?thesis by blast
qed

section \<open>Claims about the pattern compiler\<close>





section \<open>Claims about the query-string parser\<close>

text \<open>
  C8. On the empty string the parser returns no result and the caller keeps its
  configuration. On an input of whitespace only (here three spaces) it returns a result,
  the empty block model, and the caller replaces the blocks and the operators of its
  configuration by empty lists.
\<close>

theorem parse_query_blank_input:
  "parseBooleanQuery uids [] = None
   \<and> applyPastedQuery uids cfg [] = cfg
   \<and> parseBooleanQuery uids ''   '' = Some \<lparr>pq_blocks = [], pq_operators = []\<rparr>
   \<and> blocks (applyPastedQuery uids cfg ''   '') = []
   \<and> operators (applyPastedQuery uids cfg ''   '') = []"
proof -
  have e: "parseBooleanQuery uids [] = None"
    by (simp add: parseBooleanQuery_def)
  have b: "parseBooleanQuery uids ''   '' = Some \<lparr>pq_blocks = [], pq_operators = []\<rparr>"
    by (rule parse_blank) (simp_all add: is_space_def)
  show ?thesis
    by (simp add: applyPastedQuery_def e b)
qed

section \<open>Claims about the entry parser\<close>

text \<open>
  C3 as stated fails on a non-empty text of whitespace: the text of two spaces is not
  empty and no entry is extracted from it, and the parser returns the empty sequence
  instead of raising, because the guard tests the trimmed text.
\<close>

theorem parse_entries_counterexample:
  "''  '' \<noteq> [] \<and> parse_loop ''  '' 0 [] = [] \<and> parseBibtexEntries ''  '' = Inr []
   \<and> parseBibtexEntries ''  '' \<noteq> Inl ParseFailure"
proof -
  have "trim ''  '' = []" by (simp add: trim_def is_space_def)
  moreover have "parse_loop ''  '' 0 [] = []"
    by (rule parse_loop_no_at) simp
  ultimately show ?thesis by (simp add: parseBibtexEntries_def)
qed

text \<open>
  C3, as amended. The entry parser is a total function (its two loops terminate on every
  text). On a blank text (empty, or whitespace only) it returns the empty sequence and
  does not raise. On a text that is not blank and from which no entry was extracted it
  raises \<open>ParseFailure\<close>; in particular on every non-blank text without an \<^verbatim>\<open>@\<close>. Otherwise
  it returns the extracted entries without raising, also when an entry is never closed.
  The run on the empty text proceeds on no entries (and returns empty buckets when the
  configuration has plain names), and a parse failure stops the run.
\<close>

theorem parse_entries_total:
  "(trim src = [] \<longrightarrow> parseBibtexEntries src = Inr [])
   \<and> (trim src \<noteq> [] \<and> parse_loop src 0 [] = [] \<longrightarrow>
        parseBibtexEntries src = Inl ParseFailure)
   \<and> (parse_loop src 0 [] \<noteq> [] \<longrightarrow> parseBibtexEntries src = Inr (parse_loop src 0 []))
   \<and> (CHR ''@'' \<notin> set src \<longrightarrow> parse_loop src 0 [] = [])
   \<and> (CHR ''@'' \<notin> set src \<and> trim src \<noteq> [] \<longrightarrow> parseBibtexEntries src = Inl ParseFailure)
   \<and> parseBibtexEntries [] = Inr []
   \<and> run eng cfg [] = run_entries eng cfg []
   \<and> (plain_names cfg \<longrightarrow>
        (\<exists>out. run eng cfg [] = Returns out \<and> o_matched out = [] \<and> o_partial out = []
           \<and> o_unmatched out = [] \<and> r_total (report out) = 0))
   \<and> (parseBibtexEntries src = Inl ParseFailure \<longrightarrow> run eng cfg src = Throws ParseFailure)"
proof -
  have p1: "trim src = [] \<longrightarrow> parseBibtexEntries src = Inr []"
    using parse_loop_no_at[OF blank_no_at, of src 0 "[]"]
    by (auto simp: parseBibtexEntries_def)
  have p2: "trim src \<noteq> [] \<and> parse_loop src 0 [] = [] \<longrightarrow>
        parseBibtexEntries src = Inl ParseFailure"
    by (simp add: parseBibtexEntries_def)
  have p3: "parse_loop src 0 [] \<noteq> [] \<longrightarrow> parseBibtexEntries src = Inr (parse_loop src 0 [])"
    by (simp add: parseBibtexEntries_def)
  have p4: "CHR ''@'' \<notin> set src \<longrightarrow> parse_loop src 0 [] = []"
    by (simp add: parse_loop_no_at)
  have p5: "CHR ''@'' \<notin> set src \<and> trim src \<noteq> [] \<longrightarrow> parseBibtexEntries src = Inl ParseFailure"
    using p2 p4 by blast
  have p6: "parseBibtexEntries [] = Inr []"
    by (simp add: parseBibtexEntries_def parse_loop.simps trim_def)
  have p7: "run eng cfg [] = run_entries eng cfg []"
    by (simp add: run_def p6)
  have p7b: "plain_names cfg \<longrightarrow>
        (\<exists>out. run eng cfg [] = Returns out \<and> o_matched out = [] \<and> o_partial out = []
           \<and> o_unmatched out = [] \<and> r_total (report out) = 0)"
  proof
    assume "plain_names cfg"
    from run_entries_plain[OF this, of eng "[]"] obtain out where
      r: "run_entries eng cfg [] = Returns out" by blast
    from run_entries_Returns(1-4)[OF r] have "o_matched out = [] \<and> o_partial out = []
        \<and> o_unmatched out = [] \<and> r_total (report out) = 0"
      by simp
    with r p7 show "\<exists>out. run eng cfg [] = Returns out \<and> o_matched out = [] \<and> o_partial out = []
        \<and> o_unmatched out = [] \<and> r_total (report out) = 0"
      by simp
  qed
  have p8: "parseBibtexEntries src = Inl ParseFailure \<longrightarrow> run eng cfg src = Throws ParseFailure"
    by (simp add: run_def)
  from p1 p2 p3 p4 p5 p6 p7 p7b p8 show ?thesis by blast
qed

theorem parse_entries_total_witness:
  "parseBibtexEntries (''  '' @ [CHR 0x0A]) = Inr []
   \<and> parseBibtexEntries ''hello world'' = Inl ParseFailure
   \<and> run frag_engine cfg_abc ''hello world'' = Throws ParseFailure
   \<and> (\<exists>out. run frag_engine cfg_abc [] = Returns out \<and> r_total (report out) = 0)
   \<and> parseBibtexEntries unterminated_entry
       = Inr [\<lparr>entry_type = ''a'', citekey = ''k'', efields = [],
               raw = unterminated_entry\<rparr>]"
proof -
  have b: "trim (''  '' @ [CHR 0x0A]) = []" by (simp add: trim_def is_space_def)
  from parse_entries_total[of "''  '' @ [CHR 0x0A]"] b
  have w1: "parseBibtexEntries (''  '' @ [CHR 0x0A]) = Inr []" by blast
  have n: "CHR ''@'' \<notin> set ''hello world'' \<and> trim ''hello world'' \<noteq> []"
    by (simp add: trim_def is_space_def)
  from parse_entries_total[of "''hello world''"] n
  have w2: "parseBibtexEntries ''hello world'' = Inl ParseFailure" by blast
  from parse_entries_total[of "''hello world''" frag_engine cfg_abc] w2
  have w3: "run frag_engine cfg_abc ''hello world'' = Throws ParseFailure" by blast
  have pn: "plain_names cfg_abc"
    by (simp add: plain_names_def cfg_abc_def mk_cfg_def mk_block_def block_name_def
        proto_names_def)
  from parse_entries_total[of "''hello world''" frag_engine cfg_abc] pn
  have w5: "\<exists>out. run frag_engine cfg_abc [] = Returns out \<and> r_total (report out) = 0"
    by blast
  have e: "parse_loop unterminated_entry 0 []
      = [\<lparr>entry_type = ''a'', citekey = ''k'', efields = [], raw = unterminated_entry\<rparr>]"
    by (rule parse_unterminated_entry)
  then have ne: "parse_loop unterminated_entry 0 [] \<noteq> []" by simp
  from parse_entries_total[of unterminated_entry] ne
  have "parseBibtexEntries unterminated_entry = Inr (parse_loop unterminated_entry 0 [])"
    by blast
  with e have w4: "parseBibtexEntries unterminated_entry
       = Inr [\<lparr>entry_type = ''a'', citekey = ''k'', efields = [],
               raw = unterminated_entry\<rparr>]"
    by simp
  from w1 w2 w3 w5 w4 show ?thesis by blast
qed

end
